theory Spec2Isabelle
  imports Main "HOL-Library.Word"
begin

unbundle bit_operations_syntax

section \<open>Job control of the shell: \<^verbatim>\<open>jobs.c\<close>\<close>

subsection \<open>Constants of the missing header\<close>

text \<open>
  Modelled from the spec: \<^verbatim>\<open>shell.h\<close> is not among the sources. The spec reserves
  slot 0 for the foreground job and makes every other slot a background slot, which gives
  \<open>FG\<close> and \<open>BG\<close>. The run states are the three named constants the spec lists. The
  fields that hold them are C \<^verbatim>\<open>int\<close>s and \<^verbatim>\<open>memset\<close>/\<^verbatim>\<open>calloc\<close> store 0 there, so
  the model keeps \<open>int\<close> and numbers the constants in the order of the enumeration
  \<^verbatim>\<open>ALL, FINISHED, RUNNING, STOPPED\<close> that \<^verbatim>\<open>watchjobs\<close> and \<^verbatim>\<open>sigchld_handler\<close>
  switch over. The source needs the three states pairwise distinct (they label the cases
  of one \<^verbatim>\<open>switch\<close>); nothing proved below depends on more than that.
\<close>

definition FG :: int where "FG = 0"
definition BG :: int where "BG = 1"

definition FINISHED :: int where "FINISHED = 1"
definition RUNNING :: int where "RUNNING = 2"
definition STOPPED :: int where "STOPPED = 3"

lemmas state_defs = FINISHED_def RUNNING_def STOPPED_def

subsection \<open>Wait statuses\<close>

text \<open>
  The status word \<^verbatim>\<open>waitpid\<close> stores is an \<^verbatim>\<open>int\<close>; the predicates are the macros of
  \<^verbatim>\<open><sys/wait.h>\<close> in their Linux encoding: the low seven bits hold the terminating
  signal (0 for an exit), the low byte is \<^verbatim>\<open>0x7f\<close> for a stop and the whole word is
  \<^verbatim>\<open>0xffff\<close> for a continue. On \<open>int\<close>, \<open>mod 2 ^ k\<close> is the two's-complement
  \<^verbatim>\<open>& (2^k - 1)\<close>.
\<close>

definition WIFEXITED :: "int \<Rightarrow> bool" where
  "WIFEXITED status = (status mod 128 = 0)"

definition WIFSIGNALED :: "int \<Rightarrow> bool" where
  "WIFSIGNALED status = (1 \<le> status mod 128 \<and> status mod 128 \<le> 126)"

definition WIFSTOPPED :: "int \<Rightarrow> bool" where
  "WIFSTOPPED status = (status mod 256 = 127)"

definition WIFCONTINUED :: "int \<Rightarrow> bool" where
  "WIFCONTINUED status = (status = 65535)"

subsection \<open>The job table\<close>

text \<open>
  \<^verbatim>\<open>struct termios\<close> is opaque to the shell: it is only copied. A value of
  \<open>termios\<close> stands for the contents of one such structure, 0 for the all-zero bytes
  \<^verbatim>\<open>memset\<close> and \<^verbatim>\<open>calloc\<close> leave.
\<close>

type_synonym termios = nat

record proc_t =
  pid :: int
  pstate :: int
  pexitcode :: int

text \<open>
  The pair \<^verbatim>\<open>proc\<close>/\<^verbatim>\<open>nproc\<close> (heap array and its length) is the list \<open>proc\<close>; a
  \<^verbatim>\<open>NULL\<close> array of length 0 is \<open>[]\<close>. \<^verbatim>\<open>command\<close> is a heap string or \<^verbatim>\<open>NULL\<close>.
\<close>

record job_t =
  pgid :: int
  proc :: "proc_t list"
  tmodes :: termios
  state :: int
  command :: "string option"

definition nproc :: "job_t \<Rightarrow> int" where
  "nproc job = int (length (proc job))"

text \<open>What \<^verbatim>\<open>memset(&job, 0, sizeof(job_t))\<close> and \<^verbatim>\<open>calloc\<close> leave in a slot.\<close>

definition zero_job :: job_t where
  "zero_job = \<lparr>pgid = 0, proc = [], tmodes = 0, state = 0, command = None\<rparr>"

text \<open>What the shell prints with \<^verbatim>\<open>msg\<close>: the format string and its arguments.\<close>

datatype arg = ArgInt int | ArgStr "string option"

type_synonym message = "string \<times> arg list"

text \<open>
  The globals of \<^verbatim>\<open>jobs.c\<close> and the part of the system the shell acts on. \<open>jobs\<close> is
  the array with \<^verbatim>\<open>njobmax\<close> its length. \<open>tty_pgrp\<close> and \<open>tty_modes\<close> are the terminal
  behind \<^verbatim>\<open>tty_fd\<close>: its foreground process group and its attributes. \<open>shell_pgrp\<close> is
  what \<^verbatim>\<open>getpgrp()\<close> returns. \<open>sent\<close> lists the calls of \<^verbatim>\<open>kill\<close> in the order they
  were made, each with its first argument and its signal, and \<open>out\<close> the messages in the
  order they were printed.
\<close>

datatype signal = SIGTERM | SIGCONT

record shell =
  jobs :: "job_t list"
  shell_tmodes :: termios
  tty_pgrp :: int
  tty_modes :: termios
  shell_pgrp :: int
  sent :: "(int \<times> signal) list"
  out :: "message list"

definition njobmax :: "shell \<Rightarrow> int" where
  "njobmax s = int (length (jobs s))"

text \<open>
  What stops the shell instead of returning: a failed \<^verbatim>\<open>assert\<close>, a read or write
  outside an array and the use of a pointer that is \<^verbatim>\<open>NULL\<close> or no string (both
  undefined in C), \<^verbatim>\<open>app_error\<close>, and a failed system call under one of the
  capitalised wrappers, which print the error and exit.
\<close>

datatype error = AssertFailed | OutOfBounds | BadPointer | AppError | UnixError

subsection \<open>The handler of \<^verbatim>\<open>SIGCHLD\<close>\<close>

text \<open>
  The two nested loops of \<^verbatim>\<open>sigchld_handler\<close> stop at the first process whose pid
  matches: jobs are visited in slot order and the processes of a job in array order.
  \<open>find_proc\<close> is the inner loop, \<open>find_job\<close> the outer one, counting slots from \<open>i\<close>.
\<close>

fun find_proc :: "proc_t list \<Rightarrow> nat \<Rightarrow> int \<Rightarrow> nat option" where
  "find_proc [] k p = None"
| "find_proc (x # xs) k p = (if pid x = p then Some k else find_proc xs (Suc k) p)"

fun find_job :: "job_t list \<Rightarrow> nat \<Rightarrow> int \<Rightarrow> (nat \<times> nat) option" where
  "find_job [] i p = None"
| "find_job (j # js) i p =
     (case find_proc (proc j) 0 p of
        Some k \<Rightarrow> Some (i, k)
      | None \<Rightarrow> find_job js (Suc i) p)"

text \<open>The chain of tests on the status; a status none of them recognises changes nothing.\<close>

definition set_status :: "int \<Rightarrow> proc_t \<Rightarrow> proc_t" where
  "set_status status p =
     (if WIFSTOPPED status then p\<lparr>pstate := STOPPED, pexitcode := status\<rparr>
      else if WIFEXITED status then p\<lparr>pstate := FINISHED, pexitcode := status\<rparr>
      else if WIFSIGNALED status then p\<lparr>pstate := FINISHED, pexitcode := status\<rparr>
      else if WIFCONTINUED status then p\<lparr>pstate := RUNNING, pexitcode := status\<rparr>
      else p)"

text \<open>The loop that collects the states of a job's processes in a bit mask.\<close>

fun state_mask :: "proc_t list \<Rightarrow> 32 word \<Rightarrow> 32 word" where
  "state_mask [] m = m"
| "state_mask (p # ps) m =
     state_mask ps
       (if pstate p = FINISHED then m OR 1
        else if pstate p = STOPPED then m OR 2
        else if pstate p = RUNNING then m OR 4
        else m)"

definition set_job_state :: "job_t \<Rightarrow> job_t" where
  "set_job_state job =
     (let m = state_mask (proc job) 0 in
      if m = 1 then job\<lparr>state := FINISHED\<rparr>
      else if m = 2 then job\<lparr>state := STOPPED\<rparr>
      else if m = 4 then job\<lparr>state := RUNNING\<rparr>
      else job)"

text \<open>
  One turn of the \<^verbatim>\<open>while\<close> loop: \<^verbatim>\<open>waitpid\<close> has returned \<open>p\<close> with \<open>status\<close>.
  When no process matches, \<^verbatim>\<open>numbJob\<close> keeps its initial 0 and the state of slot 0 is
  recomputed. \<open>jobs\<close> always holds slot 0 (\<^verbatim>\<open>initjobs\<close> allocates it).
\<close>

definition reap :: "int \<times> int \<Rightarrow> job_t list \<Rightarrow> job_t list" where
  "reap ev js =
     (case ev of (p, status) \<Rightarrow>
        (case find_job js 0 p of
           Some (i, k) \<Rightarrow>
             (let job = js ! i;
                  job' = job\<lparr>proc := (proc job)[k := set_status status (proc job ! k)]\<rparr>
              in js[i := set_job_state job'])
         | None \<Rightarrow> js[0 := set_job_state (js ! 0)]))"

text \<open>
  A run of the handler: \<open>evs\<close> are the state changes \<^verbatim>\<open>waitpid\<close> returns, in order,
  before it returns 0 or fails.
\<close>

definition sigchld_handler :: "(int \<times> int) list \<Rightarrow> shell \<Rightarrow> shell" where
  "sigchld_handler evs s = s\<lparr>jobs := foldl (\<lambda>js ev. reap ev js) (jobs s) evs\<rparr>"

subsection \<open>Allocating, filling and deleting slots\<close>

text \<open>The exit code of a job is read from its last process; with no process the read
  is at index \<open>-1\<close>.\<close>

definition exitcode :: "job_t \<Rightarrow> error + int" where
  "exitcode job =
     (if nproc job - 1 < 0 then Inl OutOfBounds
      else Inr (pexitcode (proc job ! nat (nproc job - 1))))"

text \<open>The scan of \<^verbatim>\<open>allocjob\<close> over the slots from \<open>j\<close> on, \<open>js\<close> being those slots.\<close>

fun find_free :: "job_t list \<Rightarrow> nat \<Rightarrow> nat option" where
  "find_free [] j = None"
| "find_free (x # xs) j = (if pgid x = 0 then Some j else find_free xs (Suc j))"

text \<open>\<^verbatim>\<open>realloc\<close> is taken to succeed (the source does not test its result).\<close>

definition allocjob :: "shell \<Rightarrow> int \<times> shell" where
  "allocjob s =
     (case find_free (drop (nat BG) (jobs s)) (nat BG) of
        Some j \<Rightarrow> (int j, s)
      | None \<Rightarrow> (njobmax s, s\<lparr>jobs := jobs s @ [zero_job]\<rparr>))"

definition addjob :: "int \<Rightarrow> bool \<Rightarrow> shell \<Rightarrow> error + int \<times> shell" where
  "addjob pg bg s =
     (case (if bg then allocjob s else (FG, s)) of (j, s1) \<Rightarrow>
        if j < 0 \<or> njobmax s1 \<le> j then Inl OutOfBounds
        else Inr (j, s1\<lparr>jobs := (jobs s1)[nat j :=
               (jobs s1 ! nat j)\<lparr>pgid := pg, state := RUNNING, command := None,
                                  proc := [], tmodes := shell_tmodes s1\<rparr>]\<rparr>))"

definition deljob :: "job_t \<Rightarrow> error + job_t" where
  "deljob job =
     (if state job \<noteq> FINISHED then Inl AssertFailed
      else Inr (job\<lparr>pgid := 0, command := None, proc := []\<rparr>))"

definition movejob :: "int \<Rightarrow> int \<Rightarrow> shell \<Rightarrow> error + shell" where
  "movejob frm to s =
     (if frm < 0 \<or> njobmax s \<le> frm \<or> to < 0 \<or> njobmax s \<le> to then Inl OutOfBounds
      else if pgid (jobs s ! nat to) \<noteq> 0 then Inl AssertFailed
      else Inr (s\<lparr>jobs := (jobs s)[nat to := jobs s ! nat frm, nat frm := zero_job]\<rparr>))"

text \<open>
  Modelled from the spec: \<^verbatim>\<open>strapp\<close> is declared in the missing header and defined
  outside \<^verbatim>\<open>src/\<close>. The spec has \<^verbatim>\<open>add_process\<close> append the label to the command
  text, so \<open>strapp\<close> appends \<open>src\<close> to the string behind \<open>dst\<close>, starting a new string
  when there is none yet.
\<close>

definition strapp :: "string option \<Rightarrow> string \<Rightarrow> string option" where
  "strapp dst src = (case dst of None \<Rightarrow> Some src | Some d \<Rightarrow> Some (d @ src))"

text \<open>
  \<open>argv\<close> holds the strings of the vector before its terminating \<^verbatim>\<open>NULL\<close>. With
  none, \<^verbatim>\<open>*argv++\<close> hands the \<^verbatim>\<open>NULL\<close> itself to \<^verbatim>\<open>strapp\<close>.
\<close>

fun mkcommand_rest :: "string option \<Rightarrow> string list \<Rightarrow> string option" where
  "mkcommand_rest cmd [] = cmd"
| "mkcommand_rest cmd (a # as) = mkcommand_rest (strapp (strapp cmd '' '') a) as"

definition mkcommand :: "string option \<Rightarrow> string list \<Rightarrow> error + string option" where
  "mkcommand cmd argv =
     (let cmd1 = (if cmd \<noteq> None then strapp cmd '' | '' else cmd) in
      case argv of
        [] \<Rightarrow> Inl BadPointer
      | a # as \<Rightarrow> Inr (mkcommand_rest (strapp cmd1 a) as))"

text \<open>\<^verbatim>\<open>allocproc\<close> grows the array by one entry, which \<^verbatim>\<open>addproc\<close> then fills.\<close>

definition addproc :: "int \<Rightarrow> int \<Rightarrow> string list \<Rightarrow> shell \<Rightarrow> error + shell" where
  "addproc j p argv s =
     (if \<not> j < njobmax s then Inl AssertFailed
      else if j < 0 then Inl OutOfBounds
      else
        let job = jobs s ! nat j;
            job1 = job\<lparr>proc := proc job @ [\<lparr>pid = p, pstate = RUNNING, pexitcode = -1\<rparr>]\<rparr>
        in case mkcommand (command job1) argv of
             Inl e \<Rightarrow> Inl e
           | Inr c \<Rightarrow> Inr (s\<lparr>jobs := (jobs s)[nat j := job1\<lparr>command := c\<rparr>]\<rparr>))"

text \<open>
  \<open>status\<close> is the value behind \<^verbatim>\<open>statusp\<close> at the call; the second component of
  the result is the value behind it at the return.
\<close>

definition jobstate :: "int \<Rightarrow> int \<Rightarrow> shell \<Rightarrow> error + int \<times> int \<times> shell" where
  "jobstate j status s =
     (if \<not> j < njobmax s then Inl AssertFailed
      else if j < 0 then Inl OutOfBounds
      else
        let job = jobs s ! nat j; st = state job in
        if st = FINISHED then
          (case exitcode job of
             Inl e \<Rightarrow> Inl e
           | Inr c \<Rightarrow>
               (case deljob job of
                  Inl e \<Rightarrow> Inl e
                | Inr job' \<Rightarrow> Inr (st, c, s\<lparr>jobs := (jobs s)[nat j := job']\<rparr>)))
        else Inr (st, status, s))"

definition jobcmd :: "int \<Rightarrow> shell \<Rightarrow> error + string option" where
  "jobcmd j s =
     (if \<not> j < njobmax s then Inl AssertFailed
      else if j < 0 then Inl OutOfBounds
      else Inr (command (jobs s ! nat j)))"

subsection \<open>Signals and the terminal\<close>

text \<open>
  \<^verbatim>\<open>kill\<close> and its checking wrapper \<^verbatim>\<open>Kill\<close> are recorded in \<open>sent\<close>; a negative
  first argument addresses the process group. The wrappers \<^verbatim>\<open>Kill\<close>,
  \<^verbatim>\<open>Tcsetpgrp\<close>, \<^verbatim>\<open>Tcgetpgrp\<close>, \<^verbatim>\<open>Tcsetattr\<close> and \<^verbatim>\<open>Tcgetattr\<close> are defined
  outside \<^verbatim>\<open>src/\<close>; their system calls are taken to succeed.
\<close>

definition kill :: "int \<Rightarrow> signal \<Rightarrow> shell \<Rightarrow> shell" where
  "kill p sig s = s\<lparr>sent := sent s @ [(p, sig)]\<rparr>"

definition msg :: "string \<Rightarrow> arg list \<Rightarrow> shell \<Rightarrow> shell" where
  "msg fmt args s = s\<lparr>out := out s @ [(fmt, args)]\<rparr>"

definition Tcsetpgrp :: "int \<Rightarrow> shell \<Rightarrow> shell" where
  "Tcsetpgrp pg s = s\<lparr>tty_pgrp := pg\<rparr>"

definition Tcsetattr :: "termios \<Rightarrow> shell \<Rightarrow> shell" where
  "Tcsetattr tm s = s\<lparr>tty_modes := tm\<rparr>"

text \<open>
  \<^verbatim>\<open>sigsuspend\<close> returns after a signal handler has run. The shell calls it with
  \<^verbatim>\<open>SIGCHLD\<close> unblocked, and the handler of \<^verbatim>\<open>SIGINT\<close> leaves the caller by
  \<^verbatim>\<open>siglongjmp\<close>, so a call that returns has run \<open>sigchld_handler\<close>. A \<open>wake\<close> is
  what happened while the shell slept: the attributes the job in the foreground has given
  the terminal, if it changed them, and the state changes the handler then reaps.
\<close>

type_synonym wake = "termios option \<times> (int \<times> int) list"

definition sigsuspend :: "wake \<Rightarrow> shell \<Rightarrow> shell" where
  "sigsuspend w s =
     sigchld_handler (snd w)
       (case fst w of None \<Rightarrow> s | Some tm \<Rightarrow> s\<lparr>tty_modes := tm\<rparr>)"

text \<open>The state after the shell has slept through the given wakes, one after the other.\<close>

fun run_wakes :: "wake list \<Rightarrow> shell \<Rightarrow> shell" where
  "run_wakes [] s = s"
| "run_wakes (w # ws) s = run_wakes ws (sigsuspend w s)"

subsection \<open>Killing a job\<close>

text \<open>\<^verbatim>\<open>debug\<close> prints nothing: \<^verbatim>\<open>DEBUG\<close> is 0.\<close>

definition killjob :: "int \<Rightarrow> shell \<Rightarrow> error + bool \<times> shell" where
  "killjob j s =
     (if j \<ge> njobmax s then Inr (False, s)
      else if j < 0 then Inl OutOfBounds
      else if state (jobs s ! nat j) = FINISHED then Inr (False, s)
      else
        let s1 = kill (- pgid (jobs s ! nat j)) SIGTERM s;
            s2 = (if state (jobs s1 ! nat j) = STOPPED
                  then kill (- pgid (jobs s1 ! nat j)) SIGCONT s1 else s1)
        in Inr (True, s2))"

subsection \<open>Monitoring the foreground job\<close>

text \<open>
  A function that waits in \<^verbatim>\<open>sigsuspend\<close> takes the wakes still to come and returns
  those it has not used. With none left while it still has to wait, the call never
  returns: the result is \<open>None\<close>.
\<close>

definition Kill :: "int \<Rightarrow> signal \<Rightarrow> shell \<Rightarrow> shell" where
  "Kill p sig s = kill p sig s"

text \<open>The loop of \<^verbatim>\<open>monitorjob\<close>; the result starts with the value of \<^verbatim>\<open>state\<close>
  at the exit and the value of \<^verbatim>\<open>exitcode\<close>.\<close>

fun monitor_loop ::
  "wake list \<Rightarrow> int \<Rightarrow> shell \<Rightarrow> (error + int \<times> int \<times> wake list \<times> shell) option" where
  "monitor_loop [] ec s =
     (case jobstate 0 ec s of
        Inl e \<Rightarrow> Some (Inl e)
      | Inr (st, ec', s') \<Rightarrow> if st = RUNNING then None else Some (Inr (st, ec', [], s')))"
| "monitor_loop (w # ws) ec s =
     (case jobstate 0 ec s of
        Inl e \<Rightarrow> Some (Inl e)
      | Inr (st, ec', s') \<Rightarrow>
          if st = RUNNING then monitor_loop ws ec' (sigsuspend w s')
          else Some (Inr (st, ec', w # ws, s')))"

text \<open>The branch for a stopped job: \<^verbatim>\<open>Tcgetattr\<close> into the job, \<^verbatim>\<open>allocjob\<close>,
  \<^verbatim>\<open>movejob\<close> and the notice.\<close>

definition monitor_stopped :: "shell \<Rightarrow> error + shell" where
  "monitor_stopped s =
     (if njobmax s \<le> 0 then Inl OutOfBounds
      else
        let s1 = s\<lparr>jobs := (jobs s)[0 := (jobs s ! 0)\<lparr>tmodes := tty_modes s\<rparr>]\<rparr> in
        case allocjob s1 of (to, s2) \<Rightarrow>
          (case movejob 0 to s2 of
             Inl e \<Rightarrow> Inl e
           | Inr s3 \<Rightarrow>
               (case jobcmd to s3 of
                  Inl e \<Rightarrow> Inl e
                | Inr c \<Rightarrow>
                    Inr (msg ''[%d] suspended '%s'\<newline>'' [ArgInt to, ArgStr c] s3))))"

definition monitorjob ::
  "wake list \<Rightarrow> shell \<Rightarrow> (error + int \<times> wake list \<times> shell) option" where
  "monitorjob ws s =
     (if njobmax s \<le> 0 then Some (Inl OutOfBounds)
      else
        case monitor_loop ws 0 (Tcsetpgrp (pgid (jobs s ! 0)) s) of
          None \<Rightarrow> None
        | Some (Inl e) \<Rightarrow> Some (Inl e)
        | Some (Inr (st, ec, ws', s1)) \<Rightarrow>
            (case (if st = STOPPED then monitor_stopped s1 else Inr s1) of
               Inl e \<Rightarrow> Some (Inl e)
             | Inr s2 \<Rightarrow>
                 Some (Inr (ec, ws',
                   if st \<noteq> RUNNING
                   then Tcsetpgrp (shell_pgrp s2) (Tcsetattr (shell_tmodes s2) s2)
                   else s2))))"

text \<open>
  \<^verbatim>\<open>initjobs\<close>: one zeroed slot, the terminal taken for the shell's group \<open>pg\<close>, and
  the terminal's attributes \<open>tm\<close> saved as the shell's.
\<close>

definition initjobs :: "int \<Rightarrow> termios \<Rightarrow> shell" where
  "initjobs pg tm =
     \<lparr>jobs = [zero_job], shell_tmodes = tm, tty_pgrp = pg, tty_modes = tm,
      shell_pgrp = pg, sent = [], out = []\<rparr>"

subsection \<open>Resuming a job\<close>

text \<open>The \<^verbatim>\<open>for\<close> loop that picks a job when none is named, \<open>j\<close> counting down.\<close>

fun select_from :: "job_t list \<Rightarrow> nat \<Rightarrow> nat" where
  "select_from js 0 = 0"
| "select_from js (Suc j) =
     (if state (js ! Suc j) = FINISHED then select_from js j else Suc j)"

definition select_job :: "shell \<Rightarrow> int" where
  "select_job s =
     (if njobmax s - 1 < 0 then njobmax s - 1
      else int (select_from (jobs s) (nat (njobmax s - 1))))"

text \<open>The loop that waits until the job in slot 0 is no longer stopped.\<close>

fun wait_continued :: "wake list \<Rightarrow> shell \<Rightarrow> (error + wake list \<times> shell) option" where
  "wait_continued [] s =
     (if njobmax s \<le> 0 then Some (Inl OutOfBounds)
      else if state (jobs s ! 0) = STOPPED then None
      else Some (Inr ([], s)))"
| "wait_continued (w # ws) s =
     (if njobmax s \<le> 0 then Some (Inl OutOfBounds)
      else if state (jobs s ! 0) = STOPPED then wait_continued ws (sigsuspend w s)
      else Some (Inr (w # ws, s)))"

text \<open>The foreground branch up to the call of \<^verbatim>\<open>monitorjob\<close>.\<close>

definition resume_prepare ::
  "int \<Rightarrow> wake list \<Rightarrow> shell \<Rightarrow> (error + wake list \<times> shell) option" where
  "resume_prepare j ws s =
     (case movejob j 0 s of
        Inl e \<Rightarrow> Some (Inl e)
      | Inr s1 \<Rightarrow>
          let s2 = Tcsetpgrp (pgid (jobs s1 ! 0)) s1;
              s3 = Tcsetattr (tmodes (jobs s2 ! 0)) s2
          in case (if state (jobs s3 ! 0) = STOPPED
                   then wait_continued ws (Kill (- pgid (jobs s3 ! 0)) SIGCONT s3)
                   else Some (Inr (ws, s3))) of
               None \<Rightarrow> None
             | Some (Inl e) \<Rightarrow> Some (Inl e)
             | Some (Inr (ws', s4)) \<Rightarrow>
                 (case jobcmd 0 s4 of
                    Inl e \<Rightarrow> Some (Inl e)
                  | Inr c \<Rightarrow>
                      Some (Inr (ws',
                        msg ''[%d] continue '%s'\<newline>'' [ArgInt j, ArgStr c] s4))))"

definition resumejob ::
  "int \<Rightarrow> bool \<Rightarrow> wake list \<Rightarrow> shell \<Rightarrow> (error + bool \<times> wake list \<times> shell) option" where
  "resumejob j0 bg ws s =
     (let j = (if j0 < 0 then select_job s else j0) in
      if j \<ge> njobmax s then Some (Inr (False, ws, s))
      else if j < 0 then Some (Inl OutOfBounds)
      else if state (jobs s ! nat j) = FINISHED then Some (Inr (False, ws, s))
      else if tty_pgrp s \<noteq> shell_pgrp s \<or> pgid (jobs s ! 0) \<noteq> 0
        then Some (Inr (False, ws, msg ''No task control!\<newline>'' [] s))
      else if \<not> bg then
        (case resume_prepare j ws s of
           None \<Rightarrow> None
         | Some (Inl e) \<Rightarrow> Some (Inl e)
         | Some (Inr (ws1, s1)) \<Rightarrow>
             (case monitorjob ws1 s1 of
                None \<Rightarrow> None
              | Some (Inl e) \<Rightarrow> Some (Inl e)
              | Some (Inr (ec, ws2, s2)) \<Rightarrow> Some (Inr (True, ws2, s2))))
      else if state (jobs s ! nat j) = STOPPED then
        (case jobcmd j (Kill (- pgid (jobs s ! nat j)) SIGCONT s) of
           Inl e \<Rightarrow> Some (Inl e)
         | Inr c \<Rightarrow>
             Some (Inr (True, ws,
               msg ''[%d] continue '%s'\<newline>'' [ArgInt j, ArgStr c]
                 (Kill (- pgid (jobs s ! nat j)) SIGCONT s))))
      else Some (Inr (True, ws, s)))"

section \<open>Launching commands: \<^verbatim>\<open>shell.c\<close>\<close>

subsection \<open>Tokens\<close>

text \<open>
  Modelled from the spec: \<^verbatim>\<open>token_t\<close> and the constants \<^verbatim>\<open>T_NULL\<close>, \<^verbatim>\<open>T_INPUT\<close>,
  \<^verbatim>\<open>T_OUTPUT\<close>, \<^verbatim>\<open>T_PIPE\<close> and \<^verbatim>\<open>T_BGJOB\<close> are declared in the missing
  \<^verbatim>\<open>shell.h\<close>. The spec has the tokenizer produce an ordered sequence with distinguished
  redirection-input, redirection-output, pipe-separator and background-marker tokens. The
  source compares a token with these constants, tests one with \<^verbatim>\<open>!mode\<close> and hands every
  other token to \<^verbatim>\<open>Open\<close> and \<^verbatim>\<open>strapp\<close> as a C string, so a token is one of the
  markers, the null pointer (\<open>T_NULL\<close>, which also stands for \<^verbatim>\<open>NULL\<close>) or a string.
\<close>

datatype token = T_NULL | T_INPUT | T_OUTPUT | T_PIPE | T_BGJOB | Word string

subsection \<open>Files and descriptors\<close>

text \<open>
  The constants of \<^verbatim>\<open><fcntl.h>\<close> and \<^verbatim>\<open><sys/stat.h>\<close> have their Linux values, written
  in octal there: \<^verbatim>\<open>O_CREAT\<close> is 0100, \<^verbatim>\<open>O_TRUNC\<close> 01000, \<^verbatim>\<open>O_APPEND\<close> 02000,
  \<^verbatim>\<open>S_IRUSR\<close> 0400, \<^verbatim>\<open>S_IWUSR\<close> 0200, \<^verbatim>\<open>S_IRGRP\<close> 040, \<^verbatim>\<open>S_IWGRP\<close> 020 and
  \<^verbatim>\<open>S_IROTH\<close> 04.
\<close>

definition O_RDONLY :: "32 word" where "O_RDONLY = 0"
definition O_WRONLY :: "32 word" where "O_WRONLY = 1"
definition O_ACCMODE :: "32 word" where "O_ACCMODE = 3"
definition O_CREAT :: "32 word" where "O_CREAT = 64"
definition O_TRUNC :: "32 word" where "O_TRUNC = 512"
definition O_APPEND :: "32 word" where "O_APPEND = 1024"

definition S_IRUSR :: "32 word" where "S_IRUSR = 256"
definition S_IWUSR :: "32 word" where "S_IWUSR = 128"
definition S_IRGRP :: "32 word" where "S_IRGRP = 32"
definition S_IWGRP :: "32 word" where "S_IWGRP = 16"
definition S_IROTH :: "32 word" where "S_IROTH = 4"

text \<open>
  The part of the kernel the calls of \<^verbatim>\<open>shell.c\<close> act on. A file has permission bits
  and contents. A descriptor refers to a file by name or to one end of a pipe, with the
  flags it was opened with, its offset and its close-on-exec flag. \<open>fds\<close> is the
  descriptor table of the shell, \<open>npipes\<close> counts the pipes made so far, and \<open>opened\<close>
  lists the successful calls of \<^verbatim>\<open>open\<close> with their arguments, in order.
\<close>

datatype target = File string | PipeRead nat | PipeWrite nat

record ofile =
  target :: target
  oflags :: "32 word"
  offset :: nat
  cloexec :: bool

record file_t =
  fmode :: "32 word"
  fdata :: string

record world =
  files :: "string \<rightharpoonup> file_t"
  fds :: "(int \<times> ofile) list"
  umask :: "32 word"
  npipes :: nat
  opened :: "(string \<times> 32 word \<times> 32 word) list"

text \<open>A new descriptor is the lowest number not in use.\<close>

definition lowest_fd :: "(int \<times> ofile) list \<Rightarrow> int" where
  "lowest_fd tbl =
     (case find (\<lambda>n. map_of tbl n = None) (map int [0..<Suc (length tbl)]) of
        Some n \<Rightarrow> n
      | None \<Rightarrow> int (length tbl))"

text \<open>
  \<^verbatim>\<open>Open\<close> is \<^verbatim>\<open>open\<close> under a wrapper that exits on failure. The call fails on a
  path that is no string and on a missing file without \<^verbatim>\<open>O_CREAT\<close>; permissions and
  the limit on descriptors are not modelled. A new file gets the mode less the umask. An
  existing file is emptied only with \<^verbatim>\<open>O_TRUNC\<close> and write access. The descriptor
  starts at offset 0.
\<close>

definition Open :: "token \<Rightarrow> 32 word \<Rightarrow> 32 word \<Rightarrow> world \<Rightarrow> error + int \<times> world" where
  "Open path flags mode w =
     (case path of
        Word name \<Rightarrow>
          (let fd = lowest_fd (fds w);
               d = \<lparr>target = File name, oflags = flags, offset = 0, cloexec = False\<rparr>;
               w1 = w\<lparr>fds := (fd, d) # fds w, opened := opened w @ [(name, flags, mode)]\<rparr>
           in case files w name of
                None \<Rightarrow>
                  if flags AND O_CREAT = 0 then Inl UnixError
                  else Inr (fd, w1\<lparr>files := (files w)(name \<mapsto>
                         \<lparr>fmode = mode AND NOT (umask w), fdata = []\<rparr>)\<rparr>)
              | Some f \<Rightarrow>
                  if flags AND O_TRUNC \<noteq> 0 \<and> flags AND O_ACCMODE \<noteq> O_RDONLY
                  then Inr (fd, w1\<lparr>files := (files w)(name \<mapsto> f\<lparr>fdata := []\<rparr>)\<rparr>)
                  else Inr (fd, w1))
      | _ \<Rightarrow> Inl UnixError)"

text \<open>\<^verbatim>\<open>Close\<close> exits on a descriptor that is not open.\<close>

definition Close :: "int \<Rightarrow> world \<Rightarrow> error + world" where
  "Close fd w =
     (if map_of (fds w) fd = None then Inl UnixError
      else Inr (w\<lparr>fds := filter (\<lambda>e. fst e \<noteq> fd) (fds w)\<rparr>))"

text \<open>The result holds the value left behind \<^verbatim>\<open>fdp\<close>.\<close>

definition MaybeClose :: "int \<Rightarrow> world \<Rightarrow> error + int \<times> world" where
  "MaybeClose fd w =
     (if fd < 0 then Inr (fd, w)
      else case Close fd w of Inl e \<Rightarrow> Inl e | Inr w' \<Rightarrow> Inr (-1, w'))"

text \<open>\<^verbatim>\<open>mkpipe\<close>: a new pipe, both ends close-on-exec; the result starts with the read
  end and the write end.\<close>

definition mkpipe :: "world \<Rightarrow> int \<times> int \<times> world" where
  "mkpipe w =
     (let r = lowest_fd (fds w);
          tbl = (r, \<lparr>target = PipeRead (npipes w), oflags = O_RDONLY, offset = 0,
                     cloexec = True\<rparr>) # fds w;
          wr = lowest_fd tbl
      in (r, wr,
          w\<lparr>fds := (wr, \<lparr>target = PipeWrite (npipes w), oflags = O_WRONLY, offset = 0,
                          cloexec = True\<rparr>) # tbl,
            npipes := Suc (npipes w)\<rparr>))"

text \<open>
  What \<^verbatim>\<open>write\<close> does through a descriptor, for the commands that inherit one: the
  bytes replace those of the file from the offset on (from the end with \<^verbatim>\<open>O_APPEND\<close>)
  and the file grows where they reach beyond its end. The data in pipes is not tracked.
\<close>

definition write_at :: "nat \<Rightarrow> string \<Rightarrow> string \<Rightarrow> string" where
  "write_at off bs old =
     take off old @ replicate (off - length old) (CHR 0x00) @ bs @ drop (off + length bs) old"

definition sys_write :: "int \<Rightarrow> string \<Rightarrow> world \<Rightarrow> error + world" where
  "sys_write fd bs w =
     (case map_of (fds w) fd of
        None \<Rightarrow> Inl UnixError
      | Some d \<Rightarrow>
          if oflags d AND O_ACCMODE = O_RDONLY then Inl UnixError
          else
            (case target d of
               File name \<Rightarrow>
                 (case files w name of
                    None \<Rightarrow> Inl UnixError
                  | Some f \<Rightarrow>
                      let off = (if oflags d AND O_APPEND \<noteq> 0 then length (fdata f)
                                 else offset d)
                      in Inr (w\<lparr>files := (files w)(name \<mapsto>
                                  f\<lparr>fdata := write_at off bs (fdata f)\<rparr>),
                                fds := (fd, d\<lparr>offset := off + length bs\<rparr>) #
                                       filter (\<lambda>e. fst e \<noteq> fd) (fds w)\<rparr>))
             | _ \<Rightarrow> Inr w))"

subsection \<open>Redirections\<close>

text \<open>
  The token array is a list and the pointer \<^verbatim>\<open>token\<close> an index \<open>base\<close> into it, so
  that \<^verbatim>\<open>token[i]\<close> is the element at \<open>base + i\<close>. The locals of \<^verbatim>\<open>do_redir\<close> and what
  it changes through its pointers:
\<close>

record redir =
  r_token :: "token list"
  r_mode :: token
  r_n :: int
  r_input :: int
  r_output :: int
  r_world :: world

text \<open>The body of the loop for index \<open>i\<close>.\<close>

definition redir_step :: "nat \<Rightarrow> nat \<Rightarrow> redir \<Rightarrow> error + redir" where
  "redir_step base i r =
     (if length (r_token r) \<le> base + i then Inl OutOfBounds
      else if r_token r ! (base + i) = T_INPUT then
        (case MaybeClose (r_input r) (r_world r) of
           Inl e \<Rightarrow> Inl e
         | Inr (fd0, w1) \<Rightarrow>
             if length (r_token r) \<le> base + i + 1 then Inl OutOfBounds
             else
               (case Open (r_token r ! (base + i + 1)) O_RDONLY 0 w1 of
                  Inl e \<Rightarrow> Inl e
                | Inr (fd, w2) \<Rightarrow>
                    Inr (r\<lparr>r_n := (if r_mode r = T_NULL then int i else r_n r),
                           r_mode := r_token r ! (base + i), r_input := fd, r_world := w2\<rparr>)))
      else if r_token r ! (base + i) = T_OUTPUT then
        (case MaybeClose (r_output r) (r_world r) of
           Inl e \<Rightarrow> Inl e
         | Inr (fd0, w1) \<Rightarrow>
             if length (r_token r) \<le> base + i + 1 then Inl OutOfBounds
             else
               (case Open (r_token r ! (base + i + 1)) (O_WRONLY OR O_CREAT)
                       (S_IWUSR OR S_IRUSR OR S_IRGRP OR S_IWGRP OR S_IROTH) w1 of
                  Inl e \<Rightarrow> Inl e
                | Inr (fd, w2) \<Rightarrow>
                    Inr (r\<lparr>r_n := (if r_mode r = T_NULL then int i else r_n r),
                           r_mode := r_token r ! (base + i), r_output := fd, r_world := w2\<rparr>)))
      else if r_mode r = T_NULL then Inr (r\<lparr>r_n := r_n r + 1\<rparr>)
      else Inr (r\<lparr>r_token := (r_token r)[base + i := T_NULL]\<rparr>))"

text \<open>The loop from index \<open>i\<close> with \<open>k\<close> turns to go.\<close>

fun redir_loop :: "nat \<Rightarrow> nat \<Rightarrow> nat \<Rightarrow> redir \<Rightarrow> error + redir" where
  "redir_loop base i 0 r = Inr r"
| "redir_loop base i (Suc k) r =
     (case redir_step base i r of
        Inl e \<Rightarrow> Inl e
      | Inr r' \<Rightarrow> redir_loop base (Suc i) k r')"

text \<open>
  The result is the returned count, the array, the values left behind \<^verbatim>\<open>inputp\<close> and
  \<^verbatim>\<open>outputp\<close>, and the kernel's state.
\<close>

definition do_redir ::
  "token list \<Rightarrow> nat \<Rightarrow> int \<Rightarrow> int \<Rightarrow> int \<Rightarrow> world \<Rightarrow>
   error + int \<times> token list \<times> int \<times> int \<times> world" where
  "do_redir toks base ntokens inp outp w =
     (case redir_loop base 0 (nat ntokens)
             \<lparr>r_token = toks, r_mode = T_NULL, r_n = 0, r_input = inp, r_output = outp,
              r_world = w\<rparr> of
        Inl e \<Rightarrow> Inl e
      | Inr r \<Rightarrow>
          if r_n r < 0 \<or> length (r_token r) \<le> base + nat (r_n r) then Inl OutOfBounds
          else Inr (r_n r, (r_token r)[base + nat (r_n r) := T_NULL],
                    r_input r, r_output r, r_world r))"

text \<open>
  How \<^verbatim>\<open>mkcommand\<close> and \<^verbatim>\<open>execve\<close> read an argument vector: the strings up to the
  first null pointer.
\<close>

fun argv_strings :: "token list \<Rightarrow> error + string list" where
  "argv_strings [] = Inl OutOfBounds"
| "argv_strings (T_NULL # ts) = Inr []"
| "argv_strings (Word a # ts) =
     (case argv_strings ts of Inl e \<Rightarrow> Inl e | Inr as \<Rightarrow> Inr (a # as))"
| "argv_strings (t # ts) = Inl BadPointer"

subsection \<open>Stages and pipelines\<close>

text \<open>
  \<^verbatim>\<open>Fork\<close> exits on failure. \<open>forks\<close> lists the process ids the coming calls return in
  the shell; the child of a call is another process and runs the other branch.
\<close>

definition Fork :: "int list \<Rightarrow> error + int \<times> int list" where
  "Fork forks =
     (case forks of
        [] \<Rightarrow> Inl UnixError
      | p # ps \<Rightarrow> if p \<le> 0 then Inl UnixError else Inr (p, ps))"

text \<open>
  \<^verbatim>\<open>do_stage\<close> in the shell: the redirections, the test for an empty command and the
  fork. \<^verbatim>\<open>input\<close> and \<^verbatim>\<open>output\<close> are its own copies; the array and the descriptor table
  keep what \<^verbatim>\<open>do_redir\<close> did. Membership in process groups is the kernel's and is not
  tracked: \<^verbatim>\<open>Setpgid\<close> is taken to succeed. The result is the child's pid, the array,
  the kernel's state and the forks left.
\<close>

definition do_stage ::
  "int \<Rightarrow> int \<Rightarrow> int \<Rightarrow> token list \<Rightarrow> nat \<Rightarrow> int \<Rightarrow> world \<Rightarrow> int list \<Rightarrow>
   error + int \<times> token list \<times> world \<times> int list" where
  "do_stage pg inp outp toks base ntokens w forks =
     (case do_redir toks base ntokens inp outp w of
        Inl e \<Rightarrow> Inl e
      | Inr (n, toks', inp', outp', w') \<Rightarrow>
          if n = 0 then Inl AppError
          else
            (case Fork forks of
               Inl e \<Rightarrow> Inl e
             | Inr (p, forks') \<Rightarrow> Inr (p, toks', w', forks')))"

text \<open>The locals of \<^verbatim>\<open>do_pipeline\<close> and the state it acts on.\<close>

record pipeline =
  p_token :: "token list"
  p_base :: nat
  p_ntokens :: int
  p_length :: nat
  p_input :: int
  p_output :: int
  p_next_input :: int
  p_pid :: int
  p_pgid :: int
  p_job :: int
  p_shell :: shell
  p_world :: world
  p_forks :: "int list"

text \<open>
  The first scan for \<^verbatim>\<open>T_PIPE\<close>, from index \<open>i\<close> with \<open>k\<close> turns to go: the index of
  the first one, or 0, the initial value of \<^verbatim>\<open>length\<close>.
\<close>

fun first_pipe :: "token list \<Rightarrow> nat \<Rightarrow> nat \<Rightarrow> nat \<Rightarrow> error + nat" where
  "first_pipe toks base i 0 = Inr 0"
| "first_pipe toks base i (Suc k) =
     (if length toks \<le> base + i then Inl OutOfBounds
      else if toks ! (base + i) = T_PIPE then Inr i
      else first_pipe toks base (Suc i) k)"

text \<open>
  The scan inside the loop. It sets \<^verbatim>\<open>length\<close> to \<^verbatim>\<open>ntokens\<close> at every token that is
  no pipe, so with no token left \<^verbatim>\<open>length\<close> keeps the value \<open>len\<close> it had. The result
  says whether a pipe was found, in which case \<^verbatim>\<open>mkpipe\<close> is called.
\<close>

fun next_pipe :: "token list \<Rightarrow> nat \<Rightarrow> nat \<Rightarrow> nat \<Rightarrow> nat \<Rightarrow> nat \<Rightarrow> error + nat \<times> bool" where
  "next_pipe toks base n i 0 len = Inr (len, False)"
| "next_pipe toks base n i (Suc k) len =
     (if length toks \<le> base + i then Inl OutOfBounds
      else if toks ! (base + i) = T_PIPE then Inr (i, True)
      else next_pipe toks base n (Suc i) k n)"

text \<open>
  \<^verbatim>\<open>addproc\<close> called with the pointer \<^verbatim>\<open>token\<close>: the vector it reads starts at
  \<open>base\<close>.
\<close>

definition addproc_token :: "int \<Rightarrow> int \<Rightarrow> token list \<Rightarrow> nat \<Rightarrow> shell \<Rightarrow> error + shell" where
  "addproc_token j p toks base s =
     (case argv_strings (drop base toks) of
        Inl e \<Rightarrow> if \<not> j < njobmax s then Inl AssertFailed else Inl e
      | Inr argv \<Rightarrow> addproc j p argv s)"

text \<open>The part of \<^verbatim>\<open>do_pipeline\<close> before its loop: the first stage and the job.\<close>

definition pipeline_first ::
  "token list \<Rightarrow> int \<Rightarrow> bool \<Rightarrow> shell \<Rightarrow> world \<Rightarrow> int list \<Rightarrow> error + pipeline" where
  "pipeline_first toks ntokens bg s w forks =
     (case mkpipe w of (next_input, output, w1) \<Rightarrow>
      case first_pipe toks 0 0 (nat ntokens) of
        Inl e \<Rightarrow> Inl e
      | Inr len \<Rightarrow>
      case do_stage 0 (-1) output toks 0 (int len) w1 forks of
        Inl e \<Rightarrow> Inl e
      | Inr (p, toks1, w2, forks1) \<Rightarrow>
      case MaybeClose output w2 of
        Inl e \<Rightarrow> Inl e
      | Inr (output1, w3) \<Rightarrow>
      case addjob p bg s of
        Inl e \<Rightarrow> Inl e
      | Inr (j, s1) \<Rightarrow>
      case addproc_token j p toks1 0 s1 of
        Inl e \<Rightarrow> Inl e
      | Inr s2 \<Rightarrow>
          Inr \<lparr>p_token = toks1, p_base = len + 1, p_ntokens = ntokens - (int len + 1),
               p_length = len, p_input = next_input, p_output = output1,
               p_next_input = next_input, p_pid = p, p_pgid = p, p_job = j,
               p_shell = s2, p_world = w3, p_forks = forks1\<rparr>)"

text \<open>One turn of the loop, up to the test of \<^verbatim>\<open>ntokens\<close> at its end.\<close>

definition stage_iter :: "pipeline \<Rightarrow> error + pipeline" where
  "stage_iter p =
     (if p_ntokens p < 0 then Inl OutOfBounds
      else
      case next_pipe (p_token p) (p_base p) (nat (p_ntokens p)) 0 (nat (p_ntokens p))
             (p_length p) of
        Inl e \<Rightarrow> Inl e
      | Inr (len, found) \<Rightarrow>
      case (if found then mkpipe (p_world p)
            else (p_next_input p, p_output p, p_world p)) of (next_input, output, w1) \<Rightarrow>
      case do_stage (p_pgid p) (p_input p) output (p_token p) (p_base p) (int len) w1
             (p_forks p) of
        Inl e \<Rightarrow> Inl e
      | Inr (pd, toks1, w2, forks1) \<Rightarrow>
      case MaybeClose (p_input p) w2 of
        Inl e \<Rightarrow> Inl e
      | Inr (input1, w3) \<Rightarrow>
      case MaybeClose output w3 of
        Inl e \<Rightarrow> Inl e
      | Inr (output1, w4) \<Rightarrow>
      case addproc_token (p_job p) pd toks1 (p_base p) (p_shell p) of
        Inl e \<Rightarrow> Inl e
      | Inr s1 \<Rightarrow>
          Inr (p\<lparr>p_token := toks1, p_ntokens := p_ntokens p - (int len + 1),
                 p_length := len, p_input := next_input, p_output := output1,
                 p_next_input := next_input, p_pid := pd, p_shell := s1, p_world := w4,
                 p_forks := forks1\<rparr>))"

text \<open>
  The loop: with tokens left, \<^verbatim>\<open>token\<close> moves past the stage and its pipe and the loop
  goes on.
\<close>

function pipeline_loop :: "pipeline \<Rightarrow> error + pipeline" where
  "pipeline_loop p =
     (case stage_iter p of
        Inl e \<Rightarrow> Inl e
      | Inr p' \<Rightarrow>
          if p_ntokens p' > 0
          then pipeline_loop (p'\<lparr>p_base := p_base p' + p_length p' + 1\<rparr>)
          else Inr p')"
  by pat_completeness auto
termination
proof (relation "measure (\<lambda>p. nat (p_ntokens p))")
  show "wf (measure (\<lambda>p. nat (p_ntokens p)))" by simp
next
  fix p p' :: pipeline
  assume it: "stage_iter p = Inr p'" and pos: "0 < p_ntokens p'"
  from it obtain len :: nat where "p_ntokens p' = p_ntokens p - (int len + 1)"
    by (auto simp: stage_iter_def split: if_splits sum.splits prod.splits)
  with pos show "(p'\<lparr>p_base := p_base p' + p_length p' + 1\<rparr>, p) \<in> measure (\<lambda>p. nat (p_ntokens p))"
    by simp
qed

declare pipeline_loop.simps [simp del]

text \<open>\<^verbatim>\<open>do_pipeline\<close> up to the point where the job is complete.\<close>

definition pipeline_spawn ::
  "token list \<Rightarrow> int \<Rightarrow> bool \<Rightarrow> shell \<Rightarrow> world \<Rightarrow> int list \<Rightarrow> error + pipeline" where
  "pipeline_spawn toks ntokens bg s w forks =
     (case pipeline_first toks ntokens bg s w forks of
        Inl e \<Rightarrow> Inl e
      | Inr p \<Rightarrow> pipeline_loop p)"

text \<open>
  \<^verbatim>\<open>do_pipeline\<close>: the job is monitored in the foreground or announced in the
  background. The result is the returned exit code, the wakes left and the final state.
\<close>

definition do_pipeline ::
  "token list \<Rightarrow> int \<Rightarrow> bool \<Rightarrow> wake list \<Rightarrow> shell \<Rightarrow> world \<Rightarrow> int list \<Rightarrow>
   (error + int \<times> wake list \<times> pipeline) option" where
  "do_pipeline toks ntokens bg ws s w forks =
     (case pipeline_spawn toks ntokens bg s w forks of
        Inl e \<Rightarrow> Some (Inl e)
      | Inr p \<Rightarrow>
          if \<not> bg then
            (case monitorjob ws (p_shell p) of
               None \<Rightarrow> None
             | Some (Inl e) \<Rightarrow> Some (Inl e)
             | Some (Inr (ec, ws', s')) \<Rightarrow> Some (Inr (ec, ws', p\<lparr>p_shell := s'\<rparr>)))
          else
            (case jobcmd (p_job p) (p_shell p) of
               Inl e \<Rightarrow> Some (Inl e)
             | Inr c \<Rightarrow>
                 Some (Inr (0, ws,
                   p\<lparr>p_shell := msg ''[%d] running '%s'\<newline>''
                                   [ArgInt (p_job p), ArgStr c] (p_shell p)\<rparr>))))"

text \<open>
  The stages of a command line, for stating what a pipeline is: the token sequences
  between the pipe separators.
\<close>

fun stages :: "token list \<Rightarrow> token list list" where
  "stages [] = [] # []"
| "stages (t # ts) =
     (if t = T_PIPE then [] # stages ts
      else (t # hd (stages ts)) # tl (stages ts))"

text \<open>The two redirection operators.\<close>

definition is_redir :: "token \<Rightarrow> bool" where
  "is_redir t = (t = T_INPUT \<or> t = T_OUTPUT)"

text \<open>
  Descriptors as \<^verbatim>\<open>do_job\<close> and \<^verbatim>\<open>do_pipeline\<close> hand them to \<^verbatim>\<open>do_redir\<close>: each is
  negative (none) or open, and the two differ when there is an input.
\<close>

definition valid_fds :: "int \<Rightarrow> int \<Rightarrow> world \<Rightarrow> bool" where
  "valid_fds inp outp w =
     ((inp < 0 \<or> map_of (fds w) inp \<noteq> None) \<and>
      (outp < 0 \<or> map_of (fds w) outp \<noteq> None) \<and>
      (inp < 0 \<or> inp \<noteq> outp))"

text \<open>The command line made of the given stages, with a pipe separator between
  neighbours.\<close>

fun flat :: "token list list \<Rightarrow> token list" where
  "flat [] = []"
| "flat [s] = s"
| "flat (s # t # ss) = s @ T_PIPE # flat (t # ss)"

text \<open>The entry \<^verbatim>\<open>addproc\<close> makes for a new process.\<close>

definition new_proc :: "int \<Rightarrow> proc_t" where
  "new_proc p = \<lparr>pid = p, pstate = RUNNING, pexitcode = -1\<rparr>"

text \<open>
  The text \<^verbatim>\<open>mkcommand\<close> makes of an argument vector, the label of a stage (its
  leading strings, which are all that is left of it after \<^verbatim>\<open>do_redir\<close>), and the
  command text of a pipeline: the labels of its stages in their order, joined by
  \<^verbatim>\<open>" | "\<close>.
\<close>

fun words_of :: "token list \<Rightarrow> string list" where
  "words_of [] = []"
| "words_of (Word a # ts) = a # words_of ts"
| "words_of (t # ts) = []"

fun unwords :: "string list \<Rightarrow> string" where
  "unwords [] = []"
| "unwords (a # as) = a @ concat (map (\<lambda>x. '' '' @ x) as)"

definition stage_label :: "token list \<Rightarrow> string" where
  "stage_label st = unwords (words_of st)"

definition command_text :: "token list list \<Rightarrow> string" where
  "command_text ss =
     stage_label (hd ss) @ concat (map (\<lambda>st. '' | '' @ stage_label st) (tl ss))"

section \<open>Example states\<close>

text \<open>
  Concrete states of the job table for the examples below. The shell's process group is
  50 and its saved terminal attributes are 1. The statuses are 0 (exit with code 0), 1792
  (exit with code 7), 4991 (stopped by signal 19) and 65535 (continued).
\<close>

text \<open>A background job of two processes whose first stage has already exited.\<close>

definition two_stage_jobs :: "job_t list" where
  "two_stage_jobs =
     [zero_job,
      \<lparr>pgid = 100,
       proc = [\<lparr>pid = 100, pstate = FINISHED, pexitcode = 0\<rparr>,
               \<lparr>pid = 101, pstate = RUNNING, pexitcode = -1\<rparr>],
       tmodes = 1, state = RUNNING, command = Some ''a | b''\<rparr>]"

text \<open>The shell with that job in slot 1.\<close>

definition two_stage :: shell where
  "two_stage = (initjobs 50 1)\<lparr>jobs := two_stage_jobs\<rparr>"

text \<open>A stopped background job in slot 1 and a finished one, not yet reported, in slot 2.\<close>

definition one_job :: shell where
  "one_job =
     \<lparr>jobs = [zero_job,
              \<lparr>pgid = 100, proc = [\<lparr>pid = 100, pstate = STOPPED, pexitcode = 4991\<rparr>],
               tmodes = 1, state = STOPPED, command = Some ''sleep 9''\<rparr>,
              \<lparr>pgid = 200, proc = [\<lparr>pid = 200, pstate = FINISHED, pexitcode = 1792\<rparr>],
               tmodes = 1, state = FINISHED, command = Some ''false''\<rparr>],
      shell_tmodes = 1, tty_pgrp = 50, tty_modes = 1, shell_pgrp = 50, sent = [], out = []\<rparr>"

text \<open>A foreground job just launched: what \<^verbatim>\<open>addjob\<close> and \<^verbatim>\<open>addproc\<close> leave after \<^verbatim>\<open>initjobs\<close>.\<close>

definition fg_job :: shell where
  "fg_job =
     \<lparr>jobs = [\<lparr>pgid = 100, proc = [\<lparr>pid = 100, pstate = RUNNING, pexitcode = -1\<rparr>],
               tmodes = 1, state = RUNNING, command = Some ''vi''\<rparr>],
      shell_tmodes = 1, tty_pgrp = 50, tty_modes = 1, shell_pgrp = 50, sent = [], out = []\<rparr>"

text \<open>The same job after it has put the terminal in mode 7 and has been stopped.\<close>

definition stopped_job :: shell where
  "stopped_job =
     \<lparr>jobs = [zero_job,
              \<lparr>pgid = 100, proc = [\<lparr>pid = 100, pstate = STOPPED, pexitcode = 4991\<rparr>],
               tmodes = 7, state = STOPPED, command = Some ''vi''\<rparr>],
      shell_tmodes = 1, tty_pgrp = 50, tty_modes = 1, shell_pgrp = 50, sent = [],
      out = [(''[%d] suspended '%s'\<newline>'', [ArgInt 1, ArgStr (Some ''vi'')])]\<rparr>"

text \<open>The same job brought back to the foreground, at the call of \<^verbatim>\<open>monitorjob\<close>.\<close>

definition resumed_job :: shell where
  "resumed_job =
     \<lparr>jobs = [\<lparr>pgid = 100, proc = [\<lparr>pid = 100, pstate = RUNNING, pexitcode = 65535\<rparr>],
               tmodes = 7, state = RUNNING, command = Some ''vi''\<rparr>,
              zero_job],
      shell_tmodes = 1, tty_pgrp = 100, tty_modes = 7, shell_pgrp = 50,
      sent = [(-100, SIGCONT)],
      out = [(''[%d] suspended '%s'\<newline>'', [ArgInt 1, ArgStr (Some ''vi'')]),
             (''[%d] continue '%s'\<newline>'', [ArgInt 1, ArgStr (Some ''vi'')])]\<rparr>"

text \<open>Two background jobs were started in slots 1 and 2; the first has exited and has been deleted.\<close>

definition reuse_freed :: shell where
  "reuse_freed =
     \<lparr>jobs = [zero_job,
              \<lparr>pgid = 0, proc = [], tmodes = 1, state = FINISHED, command = None\<rparr>,
              \<lparr>pgid = 200, proc = [\<lparr>pid = 200, pstate = STOPPED, pexitcode = 4991\<rparr>],
               tmodes = 1, state = STOPPED, command = Some ''b''\<rparr>],
      shell_tmodes = 1, tty_pgrp = 50, tty_modes = 1, shell_pgrp = 50, sent = [], out = []\<rparr>"

text \<open>A third job has taken the freed slot 1 and has been stopped.\<close>

definition reuse_state :: shell where
  "reuse_state =
     \<lparr>jobs = [zero_job,
              \<lparr>pgid = 300, proc = [\<lparr>pid = 300, pstate = STOPPED, pexitcode = 4991\<rparr>],
               tmodes = 1, state = STOPPED, command = Some ''c''\<rparr>,
              \<lparr>pgid = 200, proc = [\<lparr>pid = 200, pstate = STOPPED, pexitcode = 4991\<rparr>],
               tmodes = 1, state = STOPPED, command = Some ''b''\<rparr>],
      shell_tmodes = 1, tty_pgrp = 50, tty_modes = 1, shell_pgrp = 50, sent = [], out = []\<rparr>"

text \<open>The job of slot 2 has been continued in the foreground and has exited there: \<open>movejob\<close> has cleared slot 2 and \<open>jobstate\<close> has deleted the job in slot 0.\<close>

definition cleared_state :: shell where
  "cleared_state =
     \<lparr>jobs = [\<lparr>pgid = 0, proc = [], tmodes = 1, state = FINISHED, command = None\<rparr>,
              \<lparr>pgid = 300, proc = [\<lparr>pid = 300, pstate = STOPPED, pexitcode = 4991\<rparr>],
               tmodes = 1, state = STOPPED, command = Some ''c''\<rparr>,
              zero_job],
      shell_tmodes = 1, tty_pgrp = 50, tty_modes = 1, shell_pgrp = 50,
      sent = [(-200, SIGCONT)],
      out = [(''[%d] continue '%s'\<newline>'', [ArgInt 2, ArgStr (Some ''b'')])]\<rparr>"

text \<open>
  The kernel's state for a shell on a terminal: the standard descriptors and the copy
  \<^verbatim>\<open>initjobs\<close> makes, and a file \<^verbatim>\<open>out.txt\<close> of ten bytes.
\<close>

definition tty :: ofile where
  "tty = \<lparr>target = File ''/dev/tty'', oflags = 2, offset = 0, cloexec = False\<rparr>"

definition term_world :: world where
  "term_world =
     \<lparr>files = [''/dev/tty'' \<mapsto> \<lparr>fmode = 400, fdata = []\<rparr>,
               ''out.txt'' \<mapsto> \<lparr>fmode = 420, fdata = ''0123456789''\<rparr>],
      fds = [(0, tty), (1, tty), (2, tty), (3, tty\<lparr>cloexec := True\<rparr>)],
      umask = 18, npipes = 0, opened = []\<rparr>"

text \<open>The command \<^verbatim>\<open>ls -l > out.txt dir\<close> and the kernel's state after its
  redirection.\<close>

definition ls_tokens :: "token list" where
  "ls_tokens = [Word ''ls'', Word ''-l'', T_OUTPUT, Word ''out.txt'', Word ''dir'', T_NULL]"

definition ls_world :: world where
  "ls_world =
     term_world\<lparr>fds := (4, \<lparr>target = File ''out.txt'', oflags = 65, offset = 0,
                             cloexec = False\<rparr>) # fds term_world,
                opened := [(''out.txt'', 65, 436)]\<rparr>"

text \<open>The pipeline \<^verbatim>\<open>a | b | c\<close>, and the job table and the locals of
  \<^verbatim>\<open>do_pipeline\<close> once its three stages have been forked as 100, 101 and 102.\<close>

definition abc_tokens :: "token list" where
  "abc_tokens = [Word ''a'', T_PIPE, Word ''b'', T_PIPE, Word ''c'', T_NULL]"

definition abc_shell :: shell where
  "abc_shell =
     \<lparr>jobs = [\<lparr>pgid = 100,
               proc = [new_proc 100, new_proc 101, new_proc 102],
               tmodes = 1, state = RUNNING, command = Some ''a | b | c''\<rparr>],
      shell_tmodes = 1, tty_pgrp = 50, tty_modes = 1, shell_pgrp = 50, sent = [], out = []\<rparr>"

definition abc_pipeline :: pipeline where
  "abc_pipeline =
     \<lparr>p_token = [Word ''a'', T_NULL, Word ''b'', T_NULL, Word ''c'', T_NULL],
      p_base = 4, p_ntokens = -1, p_length = 1, p_input = 5, p_output = -1,
      p_next_input = 5, p_pid = 102, p_pgid = 100, p_job = 0, p_shell = abc_shell,
      p_world = term_world\<lparr>npipes := 2\<rparr>, p_forks = [103]\<rparr>"

text \<open>What happens while the shell monitors this pipeline: the first two stages
  exit with codes 1 and 0, then the third with code 7; a wake that is not needed.\<close>

definition abc_wakes :: "wake list" where
  "abc_wakes = [(None, [(100, 256), (101, 0)]), (None, [(102, 1792)]), (None, [])]"

text \<open>The pipeline \<^verbatim>\<open>ls -l | grep x > out.txt\<close>.\<close>

definition grep_tokens :: "token list" where
  "grep_tokens = [Word ''ls'', Word ''-l'', T_PIPE, Word ''grep'', Word ''x'', T_OUTPUT,
                  Word ''out.txt'', T_NULL]"

section \<open>Properties of the job table\<close>

lemmas wait_defs = WIFEXITED_def WIFSIGNALED_def WIFSTOPPED_def WIFCONTINUED_def

lemmas jobs_defs =
  FG_def BG_def state_defs wait_defs nproc_def zero_job_def njobmax_def
  set_status_def set_job_state_def reap_def sigchld_handler_def exitcode_def allocjob_def
  addjob_def deljob_def movejob_def strapp_def mkcommand_def addproc_def jobstate_def
  jobcmd_def kill_def Kill_def msg_def Tcsetpgrp_def Tcsetattr_def sigsuspend_def killjob_def
  monitor_stopped_def monitorjob_def initjobs_def select_job_def resume_prepare_def
  resumejob_def Let_def

subsection \<open>The handler\<close>

lemma find_proc_Some:
  "find_proc xs k0 p = Some k \<Longrightarrow> k0 \<le> k \<and> k - k0 < length xs \<and> pid (xs ! (k - k0)) = p"
proof (induction xs arbitrary: k0)
  case Nil
  then show ?case by simp
next
  case (Cons x xs)
  show ?case
  proof (cases "pid x = p")
    case True
    with Cons.prems show ?thesis by simp
  next
    case False
    with Cons.prems have "find_proc xs (Suc k0) p = Some k" by simp
    from Cons.IH [OF this] show ?thesis
      by (auto simp: Suc_diff_Suc less_eq_Suc_le nth_Cons')
  qed
qed

lemma find_job_Some:
  "find_job js i0 p = Some (i, k) \<Longrightarrow>
     i0 \<le> i \<and> i - i0 < length js \<and> k < length (proc (js ! (i - i0))) \<and>
     pid (proc (js ! (i - i0)) ! k) = p"
proof (induction js arbitrary: i0)
  case Nil
  then show ?case by simp
next
  case (Cons j js)
  show ?case
  proof (cases "find_proc (proc j) 0 p")
    case None
    with Cons.prems have "find_job js (Suc i0) p = Some (i, k)" by simp
    from Cons.IH [OF this] show ?thesis
      by (auto simp: Suc_diff_Suc less_eq_Suc_le nth_Cons')
  next
    case (Some k')
    with Cons.prems have "i = i0" "k = k'" by simp_all
    with find_proc_Some [OF Some] show ?thesis by simp
  qed
qed

lemma state_mask_eq:
  "state_mask ps m =
     m OR (if \<exists>q\<in>set ps. pstate q = FINISHED then 1 else 0)
       OR (if \<exists>q\<in>set ps. pstate q = STOPPED then 2 else 0)
       OR (if \<exists>q\<in>set ps. pstate q = RUNNING then 4 else 0)"
proof (induction ps arbitrary: m)
  case Nil
  then show ?case by simp
next
  case (Cons p ps)
  show ?case
    apply (simp only: state_mask.simps Cons.IH)
    apply (auto simp: state_defs ac_simps)
    done
qed

lemma set_job_state_state:
  assumes "\<forall>q\<in>set (proc job). pstate q \<in> {FINISHED, STOPPED, RUNNING}"
    and "proc job \<noteq> []"
  shows "state (set_job_state job) =
     (if \<forall>q\<in>set (proc job). pstate q = FINISHED then FINISHED
      else if \<forall>q\<in>set (proc job). pstate q = STOPPED then STOPPED
      else if \<forall>q\<in>set (proc job). pstate q = RUNNING then RUNNING
      else state job)"
proof -
  let ?F = "\<exists>q\<in>set (proc job). pstate q = FINISHED"
  let ?S = "\<exists>q\<in>set (proc job). pstate q = STOPPED"
  let ?R = "\<exists>q\<in>set (proc job). pstate q = RUNNING"
  have m: "state_mask (proc job) 0 =
      (if ?F then 1 else 0) OR (if ?S then 2 else 0) OR (if ?R then 4 else 0)"
    by (simp only: state_mask_eq [of "proc job" 0] or.left_neutral)
  obtain q0 where q0: "q0 \<in> set (proc job)"
    using assms(2) by (cases "proc job") auto
  have allF: "(\<forall>q\<in>set (proc job). pstate q = FINISHED) \<longleftrightarrow> ?F \<and> \<not> ?S \<and> \<not> ?R"
    using assms(1) q0 by (auto simp: state_defs)
  have allS: "(\<forall>q\<in>set (proc job). pstate q = STOPPED) \<longleftrightarrow> \<not> ?F \<and> ?S \<and> \<not> ?R"
    using assms(1) q0 by (auto simp: state_defs)
  have allR: "(\<forall>q\<in>set (proc job). pstate q = RUNNING) \<longleftrightarrow> \<not> ?F \<and> \<not> ?S \<and> ?R"
    using assms(1) q0 by (auto simp: state_defs)
  show ?thesis
    unfolding allF allS allR set_job_state_def Let_def m
    by (cases ?F; cases ?S; cases ?R) simp_all
qed

lemma set_job_state_proc: "proc (set_job_state job) = proc job"
  by (simp add: set_job_state_def Let_def)

lemma pstate_set_status:
  "pstate q \<in> {FINISHED, STOPPED, RUNNING} \<Longrightarrow>
   pstate (set_status status q) \<in> {FINISHED, STOPPED, RUNNING}"
  by (simp add: set_status_def)

lemma length_reap: "length (reap ev js) = length js"
  by (cases ev) (simp add: reap_def Let_def split: option.splits)

lemma length_reaps: "length (foldl (\<lambda>js ev. reap ev js) js evs) = length js"
  by (induction evs arbitrary: js) (simp_all add: length_reap)

lemma sigchld_handler_frame:
  "njobmax (sigchld_handler evs s) = njobmax s"
  "shell_tmodes (sigchld_handler evs s) = shell_tmodes s"
  "shell_pgrp (sigchld_handler evs s) = shell_pgrp s"
  "tty_pgrp (sigchld_handler evs s) = tty_pgrp s"
  "tty_modes (sigchld_handler evs s) = tty_modes s"
  "sent (sigchld_handler evs s) = sent s"
  "out (sigchld_handler evs s) = out s"
  by (simp_all add: sigchld_handler_def njobmax_def length_reaps)

lemma sigsuspend_frame:
  "njobmax (sigsuspend w s) = njobmax s"
  "shell_tmodes (sigsuspend w s) = shell_tmodes s"
  "shell_pgrp (sigsuspend w s) = shell_pgrp s"
  "tty_pgrp (sigsuspend w s) = tty_pgrp s"
  "sent (sigsuspend w s) = sent s"
  "out (sigsuspend w s) = out s"
  by (simp_all add: sigsuspend_def sigchld_handler_def njobmax_def length_reaps split: option.splits)

text \<open>
  One turn of the handler's loop on the entry its search has found: the entry gets the
  new state and the job's state is recomputed from the states of its entries.
\<close>

lemma reap_state:
  assumes "find_job js 0 p = Some (i, k)"
    and "\<forall>q\<in>set (proc (js ! i)). pstate q \<in> {FINISHED, STOPPED, RUNNING}"
  shows "proc (reap (p, status) js ! i) =
           (proc (js ! i))[k := set_status status (proc (js ! i) ! k)] \<and>
         state (reap (p, status) js ! i) =
           (let ps = proc (reap (p, status) js ! i) in
            if \<forall>q\<in>set ps. pstate q = FINISHED then FINISHED
            else if \<forall>q\<in>set ps. pstate q = STOPPED then STOPPED
            else if \<forall>q\<in>set ps. pstate q = RUNNING then RUNNING
            else state (js ! i))"
proof -
  from find_job_Some [OF assms(1)]
  have i: "i < length js" and k: "k < length (proc (js ! i))" by simp_all
  let ?ps = "(proc (js ! i))[k := set_status status (proc (js ! i) ! k)]"
  let ?job = "(js ! i)\<lparr>proc := ?ps\<rparr>"
  have r: "reap (p, status) js ! i = set_job_state ?job"
    using assms(1) i by (simp add: reap_def Let_def)
  have ne: "proc ?job \<noteq> []" using k by auto
  have valid: "\<forall>q\<in>set (proc ?job). pstate q \<in> {FINISHED, STOPPED, RUNNING}"
  proof
    fix q assume "q \<in> set (proc ?job)"
    then have "q \<in> insert (set_status status (proc (js ! i) ! k)) (set (proc (js ! i)))"
      using set_update_subset_insert by fastforce
    moreover have "proc (js ! i) ! k \<in> set (proc (js ! i))" using k by simp
    ultimately show "pstate q \<in> {FINISHED, STOPPED, RUNNING}"
      using assms(2) pstate_set_status by blast
  qed
  have p: "proc (reap (p, status) js ! i) = ?ps"
    by (simp add: r set_job_state_proc)
  have "state (set_job_state ?job) =
     (if \<forall>q\<in>set ?ps. pstate q = FINISHED then FINISHED
      else if \<forall>q\<in>set ?ps. pstate q = STOPPED then STOPPED
      else if \<forall>q\<in>set ?ps. pstate q = RUNNING then RUNNING
      else state (js ! i))"
    using set_job_state_state [OF valid ne] by simp
  then show ?thesis
    unfolding Let_def p by (simp add: r)
qed

text \<open>The handler changes no pid and no process group.\<close>

lemma pid_set_status: "pid (set_status status q) = pid q"
  by (simp add: set_status_def)

lemma map_pid_update:
  "map pid (ps[k := set_status status (ps ! k)]) = map pid ps"
  by (cases "k < length ps")
    (auto simp: nth_list_update pid_set_status list_update_beyond intro!: nth_equalityI)

lemma reap_pids:
  "length (reap ev js) = length js \<and>
   (\<forall>i. map pid (proc (reap ev js ! i)) = map pid (proc (js ! i)) \<and>
        pgid (reap ev js ! i) = pgid (js ! i))"
proof (cases ev)
  case (Pair p status)
  show ?thesis
  proof (cases "find_job js 0 p")
    case None
    have "\<And>i. map pid (proc ((js[0 := set_job_state (js ! 0)]) ! i)) = map pid (proc (js ! i)) \<and>
        pgid ((js[0 := set_job_state (js ! 0)]) ! i) = pgid (js ! i)"
      by (cases js) (auto simp: nth_list_update set_job_state_def Let_def nth_Cons')
    with None Pair show ?thesis by (simp add: reap_def)
  next
    case (Some ik)
    obtain i0 k where ik: "ik = (i0, k)" by (cases ik) auto
    let ?job = "(js ! i0)\<lparr>proc := (proc (js ! i0))[k := set_status status (proc (js ! i0) ! k)]\<rparr>"
    have r: "reap ev js = js[i0 := set_job_state ?job]"
      using Some Pair ik by (simp add: reap_def Let_def)
    have j: "map pid (proc (set_job_state ?job)) = map pid (proc (js ! i0))"
      "pgid (set_job_state ?job) = pgid (js ! i0)"
      by (simp_all add: set_job_state_def Let_def map_pid_update)
    have "\<And>i. map pid (proc ((js[i0 := set_job_state ?job]) ! i)) = map pid (proc (js ! i)) \<and>
        pgid ((js[i0 := set_job_state ?job]) ! i) = pgid (js ! i)"
    proof -
      fix i
      show "map pid (proc ((js[i0 := set_job_state ?job]) ! i)) = map pid (proc (js ! i)) \<and>
        pgid ((js[i0 := set_job_state ?job]) ! i) = pgid (js ! i)"
      proof (cases "i = i0 \<and> i0 < length js")
        case True
        with j show ?thesis by simp
      next
        case False
        then show ?thesis by (auto simp: nth_list_update list_update_beyond)
      qed
    qed
    then show ?thesis by (simp add: r)
  qed
qed

lemma reaps_pids:
  "length (foldl (\<lambda>js ev. reap ev js) js evs) = length js \<and>
   (\<forall>i. map pid (proc (foldl (\<lambda>js ev. reap ev js) js evs ! i)) = map pid (proc (js ! i)) \<and>
        pgid (foldl (\<lambda>js ev. reap ev js) js evs ! i) = pgid (js ! i))"
proof (induction evs arbitrary: js)
  case Nil
  then show ?case by simp
next
  case (Cons ev evs)
  from Cons [of "reap ev js"] reap_pids [of ev js] show ?case by simp
qed

text \<open>The search stops at the first entry with the pid, in the order of the table.\<close>

lemma find_proc_None: "p \<notin> set (map pid xs) \<Longrightarrow> find_proc xs k0 p = None"
  by (induction xs arbitrary: k0) auto

lemma find_proc_first:
  assumes "k < length xs" and "pid (xs ! k) = p" and "p \<notin> set (take k (map pid xs))"
  shows "find_proc xs k0 p = Some (k0 + k)"
  using assms
proof (induction xs arbitrary: k k0)
  case Nil
  then show ?case by simp
next
  case (Cons x xs)
  show ?case
  proof (cases k)
    case 0
    with Cons.prems show ?thesis by simp
  next
    case (Suc k')
    with Cons.prems have "pid x \<noteq> p" "k' < length xs" "pid (xs ! k') = p"
      "p \<notin> set (take k' (map pid xs))"
      by auto
    with Cons.IH [of k' "Suc k0"] Suc show ?thesis by simp
  qed
qed

lemma find_job_first:
  assumes "i < length js" and "k < length (proc (js ! i))" and "pid (proc (js ! i) ! k) = p"
    and "\<forall>i' < i. p \<notin> set (map pid (proc (js ! i')))"
    and "p \<notin> set (take k (map pid (proc (js ! i))))"
  shows "find_job js i0 p = Some (i0 + i, k)"
  using assms
proof (induction js arbitrary: i i0)
  case Nil
  then show ?case by simp
next
  case (Cons j js)
  show ?case
  proof (cases i)
    case 0
    with Cons.prems have "find_proc (proc j) 0 p = Some (0 + k)"
      by (intro find_proc_first) simp_all
    with 0 show ?thesis by simp
  next
    case (Suc i')
    with Cons.prems(4) have "p \<notin> set (map pid (proc j))" by force
    then have n: "find_proc (proc j) 0 p = None" by (rule find_proc_None)
    have "find_job js (Suc i0) p = Some (Suc i0 + i', k)"
    proof (rule Cons.IH)
      show "i' < length js" using Cons.prems(1) Suc by simp
      show "k < length (proc (js ! i'))" using Cons.prems(2) Suc by simp
      show "pid (proc (js ! i') ! k) = p" using Cons.prems(3) Suc by simp
      show "\<forall>i'' < i'. p \<notin> set (map pid (proc (js ! i'')))"
        using Cons.prems(4) Suc by (metis Suc_less_eq nth_Cons_Suc)
      show "p \<notin> set (take k (map pid (proc (js ! i'))))" using Cons.prems(5) Suc by simp
    qed
    with n Suc show ?thesis by simp
  qed
qed

text \<open>Entries that hold the three states keep doing so.\<close>

lemma reap_valid:
  assumes "\<forall>q\<in>set (proc (js ! i)). pstate q \<in> {FINISHED, STOPPED, RUNNING}"
  shows "\<forall>q\<in>set (proc (reap ev js ! i)). pstate q \<in> {FINISHED, STOPPED, RUNNING}"
proof (cases ev)
  case (Pair p status)
  show ?thesis
  proof (cases "find_job js 0 p")
    case None
    have "proc ((js[0 := set_job_state (js ! 0)]) ! i) = proc (js ! i)"
      by (cases "i = 0 \<and> 0 < length js")
        (auto simp: nth_list_update set_job_state_proc)
    with None Pair assms show ?thesis by (simp add: reap_def)
  next
    case (Some ik)
    obtain i0 k where ik: "ik = (i0, k)" by (cases ik) auto
    let ?ps = "(proc (js ! i0))[k := set_status status (proc (js ! i0) ! k)]"
    let ?job = "(js ! i0)\<lparr>proc := ?ps\<rparr>"
    have r: "reap ev js = js[i0 := set_job_state ?job]"
      using Some Pair ik by (simp add: reap_def Let_def)
    from find_job_Some [OF Some [unfolded ik]]
    have i0: "i0 < length js" and k: "k < length (proc (js ! i0))" by simp_all
    show ?thesis
    proof (cases "i = i0")
      case False
      then show ?thesis using assms by (simp add: r)
    next
      case True
      have p: "proc (reap ev js ! i) = ?ps"
        using True i0 by (simp add: r set_job_state_proc)
      show ?thesis
      proof
        fix q assume "q \<in> set (proc (reap ev js ! i))"
        then have "q \<in> insert (set_status status (proc (js ! i0) ! k)) (set (proc (js ! i0)))"
          unfolding p using set_update_subset_insert by fastforce
        moreover have "proc (js ! i0) ! k \<in> set (proc (js ! i0))" using k by simp
        ultimately show "pstate q \<in> {FINISHED, STOPPED, RUNNING}"
          using assms True pstate_set_status by blast
      qed
    qed
  qed
qed

lemma reaps_valid:
  assumes "\<forall>q\<in>set (proc (js ! i)). pstate q \<in> {FINISHED, STOPPED, RUNNING}"
  shows "\<forall>q\<in>set (proc (foldl (\<lambda>js ev. reap ev js) js evs ! i)).
           pstate q \<in> {FINISHED, STOPPED, RUNNING}"
  using assms
proof (induction evs arbitrary: js)
  case Nil
  then show ?case by simp
next
  case (Cons ev evs)
  from Cons.IH [OF reap_valid [OF Cons.prems]] show ?case by simp
qed

lemma sigchld_handler_snoc:
  "jobs (sigchld_handler (evs @ [ev]) s) = reap ev (jobs (sigchld_handler evs s))"
  by (simp add: sigchld_handler_def)

text \<open>
  Claim C1. Take a process of the job in slot \<open>i\<close>: entry \<open>k\<close> of the job, with pid
  \<open>p\<close>, the first entry with this pid in the table, in a job whose entries hold the
  three states. Whatever state changes \<open>evs\<close> the handler has reaped before, when it
  then reaps a state change of \<open>p\<close> it stores the new state and status in that entry
  and recomputes the state of this job: with every process of the job \<open>FINISHED\<close> the
  job is \<open>FINISHED\<close>, with every process \<open>STOPPED\<close> it is \<open>STOPPED\<close>, with every
  process \<open>RUNNING\<close> it is \<open>RUNNING\<close>, and with any other mix of the three states
  the job keeps the state it had.
\<close>

theorem sigchld_handler_recomputes_state:
  assumes "i < length (jobs s)" and "k < length (proc (jobs s ! i))"
    and "pid (proc (jobs s ! i) ! k) = p"
    and "\<forall>i' < i. p \<notin> set (map pid (proc (jobs s ! i')))"
    and "p \<notin> set (take k (map pid (proc (jobs s ! i))))"
    and "\<forall>q\<in>set (proc (jobs s ! i)). pstate q \<in> {FINISHED, STOPPED, RUNNING}"
  shows "(let s1 = sigchld_handler evs s;
              s2 = sigchld_handler (evs @ [(p, status)]) s;
              ps = proc (jobs s2 ! i)
          in ps = (proc (jobs s1 ! i))[k := set_status status (proc (jobs s1 ! i) ! k)] \<and>
             state (jobs s2 ! i) =
               (if \<forall>q\<in>set ps. pstate q = FINISHED then FINISHED
                else if \<forall>q\<in>set ps. pstate q = STOPPED then STOPPED
                else if \<forall>q\<in>set ps. pstate q = RUNNING then RUNNING
                else state (jobs s1 ! i)))"
proof -
  let ?js1 = "jobs (sigchld_handler evs s)"
  have js1: "?js1 = foldl (\<lambda>js ev. reap ev js) (jobs s) evs"
    by (simp add: sigchld_handler_def)
  from reaps_pids [of "jobs s" evs]
  have len: "length ?js1 = length (jobs s)"
    and pids: "\<And>i'. map pid (proc (?js1 ! i')) = map pid (proc (jobs s ! i'))"
    by (simp_all add: js1)
  have a1: "i < length ?js1" using assms(1) len by simp
  have a2: "k < length (proc (?js1 ! i))"
    using assms(2) pids [of i] by (metis length_map)
  have a3: "pid (proc (?js1 ! i) ! k) = p"
  proof -
    have "pid (proc (?js1 ! i) ! k) = map pid (proc (?js1 ! i)) ! k" using a2 by simp
    also have "\<dots> = map pid (proc (jobs s ! i)) ! k" by (simp only: pids)
    also have "\<dots> = p" using assms(2,3) by simp
    finally show ?thesis .
  qed
  have a4: "\<forall>i' < i. p \<notin> set (map pid (proc (?js1 ! i')))"
    using assms(4) by (simp only: pids) 
  have a5: "p \<notin> set (take k (map pid (proc (?js1 ! i))))"
    using assms(5) by (simp add: pids)
  have a6: "\<forall>q\<in>set (proc (?js1 ! i)). pstate q \<in> {FINISHED, STOPPED, RUNNING}"
    unfolding js1 by (rule reaps_valid [OF assms(6)])
  from find_job_first [OF a1 a2 a3 a4 a5, of 0]
  have f: "find_job ?js1 0 p = Some (i, k)" by simp
  from reap_state [OF f a6, of status] show ?thesis
    unfolding Let_def sigchld_handler_snoc .
qed

theorem sigchld_handler_recomputes_state_witness:
  "pid (proc (jobs two_stage ! 1) ! 1) = 101 \<and>
   map pstate (proc (jobs two_stage ! 1)) = [FINISHED, RUNNING] \<and>
   state (jobs (sigchld_handler [(101, 4991)] two_stage) ! 1) = RUNNING \<and>
   state (jobs (sigchld_handler [(101, 1792)] two_stage) ! 1) = FINISHED \<and>
   state (jobs (sigchld_handler [(100, 4991), (101, 4991)] two_stage) ! 1) = STOPPED"
proof -
  have h: "1 < length (jobs two_stage)" "1 < length (proc (jobs two_stage ! 1))"
    "pid (proc (jobs two_stage ! 1) ! 1) = 101"
    "\<forall>i' < 1. 101 \<notin> set (map pid (proc (jobs two_stage ! i')))"
    "101 \<notin> set (take 1 (map pid (proc (jobs two_stage ! 1))))"
    "\<forall>q\<in>set (proc (jobs two_stage ! 1)). pstate q \<in> {FINISHED, STOPPED, RUNNING}"
    by (simp_all add: two_stage_def two_stage_jobs_def initjobs_def zero_job_def)
  show ?thesis
    using h(3)
      sigchld_handler_recomputes_state [OF h, of "[]" 4991]
      sigchld_handler_recomputes_state [OF h, of "[]" 1792]
      sigchld_handler_recomputes_state [OF h, of "[(100, 4991)]" 4991]
    by (simp add: two_stage_def two_stage_jobs_def initjobs_def zero_job_def
        sigchld_handler_def reap_def set_status_def set_job_state_def wait_defs
        state_defs Let_def)
qed

subsection \<open>Reading the state of a job\<close>

lemma jobstate_frame:
  assumes "jobstate j status s = Inr (st, status', s')"
  shows "njobmax s' = njobmax s" "shell_tmodes s' = shell_tmodes s"
    "shell_pgrp s' = shell_pgrp s" "tty_pgrp s' = tty_pgrp s" "tty_modes s' = tty_modes s"
    "sent s' = sent s" "out s' = out s"
  using assms
  by (auto simp: jobstate_def Let_def njobmax_def split: if_splits sum.splits)

text \<open>
  Claim C4. For an index \<open>j\<close> of the table whose job, when finished, has a process,
  \<open>jobstate\<close> returns the state of the job. When that state is \<open>FINISHED\<close> it stores
  the status of the job's last process behind \<open>statusp\<close> and deletes the job: the slot
  gets group 0, no command and no processes. In every other state it changes neither the
  table nor the value behind \<open>statusp\<close>.
\<close>

theorem jobstate_consumes_finished:
  assumes "0 \<le> j" and "j < njobmax s"
    and "state (jobs s ! nat j) = FINISHED \<longrightarrow> proc (jobs s ! nat j) \<noteq> []"
  shows "jobstate j status s =
     (if state (jobs s ! nat j) = FINISHED
      then Inr (FINISHED, pexitcode (last (proc (jobs s ! nat j))),
             s\<lparr>jobs := (jobs s)[nat j :=
                (jobs s ! nat j)\<lparr>pgid := 0, command := None, proc := []\<rparr>]\<rparr>)
      else Inr (state (jobs s ! nat j), status, s))"
proof (cases "state (jobs s ! nat j) = FINISHED")
  case True
  with assms(3) have ne: "proc (jobs s ! nat j) \<noteq> []" by simp
  then have "exitcode (jobs s ! nat j) = Inr (pexitcode (last (proc (jobs s ! nat j))))"
    by (cases "proc (jobs s ! nat j)")
       (simp_all add: exitcode_def nproc_def last_conv_nth nat_diff_distrib)
  with True assms(1,2) show ?thesis
    by (simp add: jobstate_def Let_def deljob_def)
next
  case False
  with assms(1,2) show ?thesis
    by (simp add: jobstate_def Let_def)
qed

theorem jobstate_consumes_finished_witness:
  "jobstate 2 0 one_job =
     Inr (FINISHED, 1792,
       one_job\<lparr>jobs := (jobs one_job)[2 :=
          \<lparr>pgid = 0, proc = [], tmodes = 1, state = FINISHED, command = None\<rparr>]\<rparr>) \<and>
   jobstate 1 0 one_job = Inr (STOPPED, 0, one_job)"
proof -
  have h: "(0::int) \<le> 2" "2 < njobmax one_job" "(0::int) \<le> 1" "1 < njobmax one_job"
    "state (jobs one_job ! nat 2) = FINISHED \<longrightarrow> proc (jobs one_job ! nat 2) \<noteq> []"
    "state (jobs one_job ! nat 1) = FINISHED \<longrightarrow> proc (jobs one_job ! nat 1) \<noteq> []"
    by (simp_all add: one_job_def njobmax_def)
  show ?thesis
    using jobstate_consumes_finished [OF h(1,2,5), of 0]
      jobstate_consumes_finished [OF h(3,4,6), of 0]
    by (simp add: one_job_def state_defs)
qed

subsection \<open>Killing a job\<close>

text \<open>
  Claim C5 has the continue signal sent before the terminate signal. On the stopped job
  of \<open>one_job\<close> the calls are \<^verbatim>\<open>kill(-100, SIGTERM)\<close> and then
  \<^verbatim>\<open>kill(-100, SIGCONT)\<close>.
\<close>

theorem killjob_order_counterexample:
  "killjob 1 one_job =
     Inr (True, one_job\<lparr>sent := [(-100, SIGTERM), (-100, SIGCONT)]\<rparr>) \<and>
   killjob 1 one_job \<noteq>
     Inr (True, one_job\<lparr>sent := [(-100, SIGCONT), (-100, SIGTERM)]\<rparr>)"
  by (simp add: killjob_def kill_def one_job_def njobmax_def state_defs Let_def)

text \<open>
  Claim C5, amended. For \<open>j\<close> from 0 on, \<open>killjob\<close> returns false and sends nothing
  when \<open>j\<close> is not below \<open>njobmax\<close> or the job is \<open>FINISHED\<close>. Otherwise it returns
  true after sending \<open>SIGTERM\<close> to the job's process group and then, when the job is
  \<open>STOPPED\<close>, \<open>SIGCONT\<close> to the same group.
\<close>

theorem killjob_signals:
  assumes "0 \<le> j"
  shows "killjob j s =
     (if j \<ge> njobmax s \<or> state (jobs s ! nat j) = FINISHED then Inr (False, s)
      else Inr (True,
        s\<lparr>sent := sent s @ (- pgid (jobs s ! nat j), SIGTERM) #
           (if state (jobs s ! nat j) = STOPPED
            then [(- pgid (jobs s ! nat j), SIGCONT)] else [])\<rparr>))"
  using assms by (simp add: killjob_def kill_def Let_def)

theorem killjob_signals_witness:
  "killjob 1 one_job = Inr (True, one_job\<lparr>sent := [(-100, SIGTERM), (-100, SIGCONT)]\<rparr>) \<and>
   killjob 2 one_job = Inr (False, one_job) \<and>
   killjob 3 one_job = Inr (False, one_job)"
  using killjob_signals [of 1 one_job] killjob_signals [of 2 one_job]
    killjob_signals [of 3 one_job]
  by (simp add: one_job_def njobmax_def state_defs)

subsection \<open>Monitoring the foreground job\<close>

lemma monitor_loop_frame:
  "monitor_loop ws ec s = Some (Inr (st, ec', ws', s')) \<Longrightarrow>
     njobmax s' = njobmax s \<and> shell_tmodes s' = shell_tmodes s \<and>
     shell_pgrp s' = shell_pgrp s \<and> tty_pgrp s' = tty_pgrp s \<and>
     sent s' = sent s \<and> out s' = out s \<and> st \<noteq> RUNNING"
proof (induction ws arbitrary: ec s)
  case Nil
  then show ?case
    by (auto split: sum.splits if_splits dest: jobstate_frame)
next
  case (Cons w ws)
  show ?case
  proof (cases "jobstate 0 ec s")
    case (Inl e)
    with Cons.prems show ?thesis by simp
  next
    case (Inr r)
    obtain st1 ec1 s1 where r: "r = (st1, ec1, s1)" by (cases r) auto
    note js = jobstate_frame [OF Inr [unfolded r]]
    show ?thesis
    proof (cases "st1 = RUNNING")
      case True
      with Cons.prems Inr r
      have "monitor_loop ws ec1 (sigsuspend w s1) = Some (Inr (st, ec', ws', s'))" by simp
      from Cons.IH [OF this] show ?thesis
        by (simp add: sigsuspend_frame js)
    next
      case False
      with Cons.prems Inr r js show ?thesis by auto
    qed
  qed
qed

lemma find_free_Some:
  "find_free xs j0 = Some j \<Longrightarrow>
     j0 \<le> j \<and> j - j0 < length xs \<and> pgid (xs ! (j - j0)) = 0 \<and>
     (\<forall>i < j - j0. pgid (xs ! i) \<noteq> 0)"
proof (induction xs arbitrary: j0)
  case Nil
  then show ?case by simp
next
  case (Cons x xs)
  show ?case
  proof (cases "pgid x = 0")
    case True
    with Cons.prems show ?thesis by simp
  next
    case False
    with Cons.prems have "find_free xs (Suc j0) = Some j" by simp
    from Cons.IH [OF this] False show ?thesis
      by (auto simp: Suc_diff_Suc less_eq_Suc_le nth_Cons' less_Suc_eq_0_disj)
  qed
qed

lemma find_free_None: "find_free xs j0 = None \<Longrightarrow> \<forall>i < length xs. pgid (xs ! i) \<noteq> 0"
proof (induction xs arbitrary: j0)
  case Nil
  then show ?case by simp
next
  case (Cons x xs)
  then show ?case
    by (auto simp: nth_Cons' split: if_splits)
qed

lemma allocjob_spec:
  assumes "allocjob s = (to, s2)" and "1 \<le> njobmax s"
  shows "1 \<le> to \<and> to \<le> njobmax s \<and> njobmax s2 = max (njobmax s) (to + 1) \<and>
         jobs s2 = (if to < njobmax s then jobs s else jobs s @ [zero_job]) \<and>
         pgid (jobs s2 ! nat to) = 0 \<and>
         (\<forall>i. 1 \<le> i \<and> i < to \<longrightarrow> pgid (jobs s ! nat i) \<noteq> 0) \<and>
         s2 = s\<lparr>jobs := jobs s2\<rparr>"
proof (cases "find_free (drop (nat BG) (jobs s)) (nat BG)")
  case None
  have to: "to = njobmax s" and s2: "s2 = s\<lparr>jobs := jobs s @ [zero_job]\<rparr>"
    using assms(1) None by (simp_all add: allocjob_def)
  have "\<forall>i. 1 \<le> i \<and> i < to \<longrightarrow> pgid (jobs s ! nat i) \<noteq> 0"
  proof (intro allI impI)
    fix i assume i: "1 \<le> i \<and> i < to"
    then have "nat i - 1 < length (drop (nat BG) (jobs s))"
      by (auto simp: to njobmax_def BG_def)
    with find_free_None [OF None]
    have "pgid (drop (nat BG) (jobs s) ! (nat i - 1)) \<noteq> 0" by blast
    moreover have "drop (nat BG) (jobs s) ! (nat i - 1) = jobs s ! nat i"
      using i by (simp add: BG_def to njobmax_def)
    ultimately show "pgid (jobs s ! nat i) \<noteq> 0" by simp
  qed
  then show ?thesis
    using assms(2) by (simp add: to s2 njobmax_def zero_job_def nth_append)
next
  case (Some j)
  have to: "to = int j" and s2: "s2 = s"
    using assms(1) Some by (simp_all add: allocjob_def)
  from find_free_Some [OF Some]
  have j: "1 \<le> j" "j - 1 < length (jobs s) - 1" "pgid (drop 1 (jobs s) ! (j - 1)) = 0"
    and first: "\<forall>i < j - 1. pgid (drop 1 (jobs s) ! i) \<noteq> 0"
    by (simp_all add: BG_def)
  have jl: "j < length (jobs s)" using j by linarith
  have pg: "pgid (jobs s ! j) = 0" using j jl by simp
  have "\<forall>i. 1 \<le> i \<and> i < to \<longrightarrow> pgid (jobs s ! nat i) \<noteq> 0"
  proof (intro allI impI)
    fix i assume i: "1 \<le> i \<and> i < to"
    then have "nat i - 1 < j - 1" by (auto simp: to)
    with first have "pgid (drop 1 (jobs s) ! (nat i - 1)) \<noteq> 0" by blast
    moreover have "drop 1 (jobs s) ! (nat i - 1) = jobs s ! nat i"
      using i jl by (simp add: to)
    ultimately show "pgid (jobs s ! nat i) \<noteq> 0" by simp
  qed
  then show ?thesis
    using j jl pg by (simp add: to s2 njobmax_def)
qed

lemma monitor_stopped_spec:
  assumes "1 \<le> njobmax s"
  shows "\<exists>to s'. monitor_stopped s = Inr s' \<and>
           1 \<le> to \<and> to \<le> njobmax s \<and>
           (to < njobmax s \<longrightarrow> pgid (jobs s ! nat to) = 0) \<and>
           (\<forall>i. 1 \<le> i \<and> i < to \<longrightarrow> pgid (jobs s ! nat i) \<noteq> 0) \<and>
           njobmax s' = max (njobmax s) (to + 1) \<and>
           jobs s' ! nat to = (jobs s ! 0)\<lparr>tmodes := tty_modes s\<rparr> \<and>
           jobs s' ! 0 = zero_job \<and>
           (\<forall>i. 1 \<le> i \<and> i < njobmax s \<and> i \<noteq> to \<longrightarrow> jobs s' ! nat i = jobs s ! nat i) \<and>
           out s' = out s @ [(''[%d] suspended '%s'\<newline>'',
                              [ArgInt to, ArgStr (command (jobs s ! 0))])] \<and>
           tty_pgrp s' = tty_pgrp s \<and> tty_modes s' = tty_modes s \<and>
           shell_tmodes s' = shell_tmodes s \<and> shell_pgrp s' = shell_pgrp s \<and>
           sent s' = sent s"
proof -
  let ?j0 = "(jobs s ! 0)\<lparr>tmodes := tty_modes s\<rparr>"
  let ?s1 = "s\<lparr>jobs := (jobs s)[0 := ?j0]\<rparr>"
  obtain to s2 where al: "allocjob ?s1 = (to, s2)" by (cases "allocjob ?s1") auto
  have n1: "1 \<le> njobmax ?s1" "njobmax ?s1 = njobmax s"
    using assms by (simp_all add: njobmax_def)
  note sp = allocjob_spec [OF al n1(1), unfolded n1(2)]
  have to: "1 \<le> to" "to \<le> njobmax s" and n2: "njobmax s2 = max (njobmax s) (to + 1)"
    and pg: "pgid (jobs s2 ! nat to) = 0"
    and first: "\<forall>i. 1 \<le> i \<and> i < to \<longrightarrow> pgid (jobs ?s1 ! nat i) \<noteq> 0"
    using sp by blast+
  have j2': "jobs s2 = (if to < njobmax s then jobs ?s1 else jobs ?s1 @ [zero_job])"
    using sp by blast
  have j2: "jobs s2 = (if to < njobmax s then (jobs s)[0 := ?j0] else (jobs s)[0 := ?j0] @ [zero_job])"
    using j2' by simp
  have s2': "s2 = ?s1\<lparr>jobs := jobs s2\<rparr>"
    using sp by blast
  have s2: "s2 = s\<lparr>jobs := jobs s2\<rparr>"
    by (subst s2') simp
  have "int (length (jobs s2)) = max (int (length (jobs s))) (to + 1)"
    using n2 by (simp add: njobmax_def)
  then have len2: "0 < length (jobs s2)" "nat to < length (jobs s2)"
    using to by linarith+
  let ?s3 = "s2\<lparr>jobs := (jobs s2)[nat to := jobs s2 ! 0, 0 := zero_job]\<rparr>"
  have mv: "movejob 0 to s2 = Inr ?s3"
    using to n2 pg by (simp add: movejob_def njobmax_def)
  have n3: "njobmax ?s3 = njobmax s2" by (simp add: njobmax_def)
  have len: "0 < length (jobs s)" using assms by (cases "jobs s") (simp_all add: njobmax_def)
  have j20: "jobs s2 ! 0 = ?j0"
    using len by (auto simp: j2 nth_append)
  have cmd: "jobcmd to ?s3 = Inr (command (jobs s ! 0))"
    using to len2 by (simp add: jobcmd_def njobmax_def j20)
  let ?s' = "msg ''[%d] suspended '%s'\<newline>'' [ArgInt to, ArgStr (command (jobs s ! 0))] ?s3"
  have res: "monitor_stopped s = Inr ?s'"
    using assms al mv cmd by (simp add: monitor_stopped_def Let_def)
  have fields: "tty_pgrp ?s' = tty_pgrp s" "tty_modes ?s' = tty_modes s"
    "shell_tmodes ?s' = shell_tmodes s" "shell_pgrp ?s' = shell_pgrp s" "sent ?s' = sent s"
    "out ?s' = out s @ [(''[%d] suspended '%s'\<newline>'',
                              [ArgInt to, ArgStr (command (jobs s ! 0))])]"
    by (subst s2, simp add: msg_def)+
  have js': "jobs ?s' = (jobs s2)[nat to := ?j0, 0 := zero_job]"
    by (simp add: msg_def j20)
  have a: "jobs ?s' ! nat to = ?j0" using to len2 by (simp add: js')
  have b: "jobs ?s' ! 0 = zero_job" using len2 by (simp add: js')
  have c: "\<forall>i. 1 \<le> i \<and> i < njobmax s \<and> i \<noteq> to \<longrightarrow> jobs ?s' ! nat i = jobs s ! nat i"
  proof (intro allI impI)
    fix i assume i: "1 \<le> i \<and> i < njobmax s \<and> i \<noteq> to"
    then have ne: "nat i \<noteq> nat to" "nat i \<noteq> 0" "nat i < length (jobs s)"
      using to by (auto simp: njobmax_def)
    then have "jobs s2 ! nat i = jobs s ! nat i"
      by (auto simp: j2 nth_append)
    with ne show "jobs ?s' ! nat i = jobs s ! nat i"
      by (simp add: js')
  qed
  have d: "to < njobmax s \<longrightarrow> pgid (jobs s ! nat to) = 0"
    using pg to by (auto simp: j2)
  have e: "\<forall>i. 1 \<le> i \<and> i < to \<longrightarrow> pgid (jobs s ! nat i) \<noteq> 0"
    using first by auto
  have f: "njobmax ?s' = max (njobmax s) (to + 1)"
    using n2 by (simp add: msg_def njobmax_def)
  from res to a b c d e f fields show ?thesis by blast
qed

lemma monitor_stopped_frame:
  "monitor_stopped s = Inr s' \<Longrightarrow>
     shell_tmodes s' = shell_tmodes s \<and> shell_pgrp s' = shell_pgrp s"
  by (auto simp: monitor_stopped_def Let_def allocjob_def movejob_def jobcmd_def msg_def
      split: if_splits option.splits sum.splits prod.splits)

lemma Tcsetpgrp_frame:
  "njobmax (Tcsetpgrp pg s) = njobmax s" "shell_tmodes (Tcsetpgrp pg s) = shell_tmodes s"
  "shell_pgrp (Tcsetpgrp pg s) = shell_pgrp s" "jobs (Tcsetpgrp pg s) = jobs s"
  "out (Tcsetpgrp pg s) = out s" "sent (Tcsetpgrp pg s) = sent s"
  "tty_modes (Tcsetpgrp pg s) = tty_modes s"
  by (simp_all add: Tcsetpgrp_def njobmax_def)

lemma fg_job_reached:
  "addjob 100 False (initjobs 50 1) =
     Inr (0, (initjobs 50 1)\<lparr>jobs := [\<lparr>pgid = 100, proc = [], tmodes = 1, state = RUNNING,
                                          command = None\<rparr>]\<rparr>)"
  "addproc 0 100 [''vi'']
     ((initjobs 50 1)\<lparr>jobs := [\<lparr>pgid = 100, proc = [], tmodes = 1, state = RUNNING,
                                 command = None\<rparr>]\<rparr>) = Inr fg_job"
  by (simp_all add: jobs_defs fg_job_def)

lemma monitor_loop_fg_job:
  "monitor_loop [(Some 7, [(100, 4991)])] 0 (Tcsetpgrp (pgid (jobs fg_job ! 0)) fg_job) =
     Some (Inr (STOPPED, 0, [],
       fg_job\<lparr>jobs := [\<lparr>pgid = 100,
                          proc = [\<lparr>pid = 100, pstate = STOPPED, pexitcode = 4991\<rparr>],
                          tmodes = 1, state = STOPPED, command = Some ''vi''\<rparr>],
               tty_pgrp := 100, tty_modes := 7\<rparr>))"
  by (simp add: jobs_defs fg_job_def)

text \<open>
  Claim C3 has the terminal return to the mode it had before the call. \<open>resumejob\<close>
  first gives the terminal the mode saved in the job, 7 here, and then calls
  \<open>monitorjob\<close>, which leaves the terminal in the shell's saved mode 1.
\<close>

theorem monitorjob_mode_counterexample:
  "resume_prepare 1 [(None, [(100, 65535)]), (None, [(100, 0)])] stopped_job =
     Some (Inr ([(None, [(100, 0)])], resumed_job)) \<and>
   tty_modes resumed_job = 7 \<and>
   monitorjob [(None, [(100, 0)])] resumed_job =
     Some (Inr (0, [],
       resumed_job\<lparr>jobs := [\<lparr>pgid = 0, proc = [], tmodes = 7, state = FINISHED,
                                command = None\<rparr>, zero_job],
                    tty_pgrp := 50, tty_modes := 1\<rparr>)) \<and>
   tty_modes (resumed_job\<lparr>jobs := [\<lparr>pgid = 0, proc = [], tmodes = 7, state = FINISHED,
                                command = None\<rparr>, zero_job],
                    tty_pgrp := 50, tty_modes := 1\<rparr>) \<noteq> tty_modes resumed_job"
  by (simp add: jobs_defs stopped_job_def resumed_job_def)

text \<open>
  Claim C3, amended. When a call of \<open>monitorjob\<close> returns, the terminal's foreground
  process group is the shell's own group and the terminal's mode is the mode saved in
  \<open>shell_tmodes\<close>, whatever the mode was at the call; the shell's group and saved mode
  are the ones it had at the call.
\<close>

theorem monitorjob_restores_terminal:
  assumes "monitorjob ws s = Some (Inr (ec, ws', s'))"
  shows "tty_pgrp s' = shell_pgrp s \<and> tty_modes s' = shell_tmodes s \<and>
         shell_pgrp s' = shell_pgrp s \<and> shell_tmodes s' = shell_tmodes s"
proof -
  let ?s0 = "Tcsetpgrp (pgid (jobs s ! 0)) s"
  from assms obtain st s1 where
    ml: "monitor_loop ws 0 ?s0 = Some (Inr (st, ec, ws', s1))"
    and br: "(if st = STOPPED then monitor_stopped s1 else Inr s1) \<noteq> Inl e" for e
    by (auto simp: monitorjob_def split: if_splits option.splits sum.splits)
  from monitor_loop_frame [OF ml]
  have fr: "shell_tmodes s1 = shell_tmodes s" "shell_pgrp s1 = shell_pgrp s" "st \<noteq> RUNNING"
    by (simp_all add: Tcsetpgrp_frame)
  obtain s2 where s2: "(if st = STOPPED then monitor_stopped s1 else Inr s1) = Inr s2"
    using br by (cases "if st = STOPPED then monitor_stopped s1 else Inr s1") auto
  then have fr2: "shell_tmodes s2 = shell_tmodes s1" "shell_pgrp s2 = shell_pgrp s1"
    by (auto split: if_splits dest: monitor_stopped_frame)
  have "s' = Tcsetpgrp (shell_pgrp s2) (Tcsetattr (shell_tmodes s2) s2)"
    using assms ml s2 fr(3) by (simp add: monitorjob_def split: if_splits)
  then show ?thesis
    by (simp add: Tcsetpgrp_def Tcsetattr_def fr fr2)
qed

theorem monitorjob_restores_terminal_witness:
  "monitorjob [(None, [(100, 0)])] resumed_job =
     Some (Inr (0, [],
       resumed_job\<lparr>jobs := [\<lparr>pgid = 0, proc = [], tmodes = 7, state = FINISHED,
                                command = None\<rparr>, zero_job],
                    tty_pgrp := 50, tty_modes := 1\<rparr>)) \<and>
   shell_pgrp resumed_job = 50 \<and> shell_tmodes resumed_job = 1"
proof -
  have h: "monitorjob [(None, [(100, 0)])] resumed_job =
     Some (Inr (0, [],
       resumed_job\<lparr>jobs := [\<lparr>pgid = 0, proc = [], tmodes = 7, state = FINISHED,
                                command = None\<rparr>, zero_job],
                    tty_pgrp := 50, tty_modes := 1\<rparr>))"
    by (simp add: jobs_defs resumed_job_def)
  show ?thesis
    using h monitorjob_restores_terminal [OF h] by simp
qed

text \<open>
  Claim C8. When the loop of \<open>monitorjob\<close> ends with the foreground job \<open>STOPPED\<close>,
  the call returns after storing the terminal's current mode in the job, moving the job
  from slot 0 to slot \<open>to\<close>, the first background slot that was free or else a new
  slot at the end of the table, leaving slot 0 zeroed (group 0) and the other slots as
  they were, printing the notice with \<open>to\<close> and the job's command, and giving the
  terminal back to the shell's group in the shell's saved mode.
\<close>

theorem monitorjob_stopped_moves_job:
  assumes "1 \<le> njobmax s"
    and "monitor_loop ws 0 (Tcsetpgrp (pgid (jobs s ! 0)) s) = Some (Inr (STOPPED, ec, ws', s1))"
  shows "\<exists>to s'. monitorjob ws s = Some (Inr (ec, ws', s')) \<and>
           1 \<le> to \<and> to \<le> njobmax s1 \<and>
           (to < njobmax s1 \<longrightarrow> pgid (jobs s1 ! nat to) = 0) \<and>
           (\<forall>i. 1 \<le> i \<and> i < to \<longrightarrow> pgid (jobs s1 ! nat i) \<noteq> 0) \<and>
           njobmax s' = max (njobmax s1) (to + 1) \<and>
           jobs s' ! nat to = (jobs s1 ! 0)\<lparr>tmodes := tty_modes s1\<rparr> \<and>
           jobs s' ! 0 = zero_job \<and> pgid (jobs s' ! 0) = 0 \<and>
           (\<forall>i. 1 \<le> i \<and> i < njobmax s1 \<and> i \<noteq> to \<longrightarrow> jobs s' ! nat i = jobs s1 ! nat i) \<and>
           out s' = out s1 @ [(''[%d] suspended '%s'\<newline>'',
                               [ArgInt to, ArgStr (command (jobs s1 ! 0))])] \<and>
           tty_pgrp s' = shell_pgrp s \<and> tty_modes s' = shell_tmodes s"
proof -
  from monitor_loop_frame [OF assms(2)]
  have fr: "njobmax s1 = njobmax s" "shell_tmodes s1 = shell_tmodes s" "shell_pgrp s1 = shell_pgrp s"
    by (simp_all add: Tcsetpgrp_frame)
  with assms(1) have "1 \<le> njobmax s1" by simp
  from monitor_stopped_spec [OF this]
  obtain to s2 where ms: "monitor_stopped s1 = Inr s2"
    and to: "1 \<le> to" "to \<le> njobmax s1" "to < njobmax s1 \<longrightarrow> pgid (jobs s1 ! nat to) = 0"
      "\<forall>i. 1 \<le> i \<and> i < to \<longrightarrow> pgid (jobs s1 ! nat i) \<noteq> 0"
    and rest: "njobmax s2 = max (njobmax s1) (to + 1)"
      "jobs s2 ! nat to = (jobs s1 ! 0)\<lparr>tmodes := tty_modes s1\<rparr>"
      "jobs s2 ! 0 = zero_job"
      "\<forall>i. 1 \<le> i \<and> i < njobmax s1 \<and> i \<noteq> to \<longrightarrow> jobs s2 ! nat i = jobs s1 ! nat i"
      "out s2 = out s1 @ [(''[%d] suspended '%s'\<newline>'',
                               [ArgInt to, ArgStr (command (jobs s1 ! 0))])]"
      "shell_tmodes s2 = shell_tmodes s1" "shell_pgrp s2 = shell_pgrp s1"
    by blast
  let ?s' = "Tcsetpgrp (shell_pgrp s2) (Tcsetattr (shell_tmodes s2) s2)"
  have m: "monitorjob ws s = Some (Inr (ec, ws', ?s'))"
    using assms ms by (simp add: monitorjob_def state_defs)
  have "jobs ?s' = jobs s2" "out ?s' = out s2" "njobmax ?s' = njobmax s2"
    "tty_pgrp ?s' = shell_pgrp s" "tty_modes ?s' = shell_tmodes s"
    by (simp_all add: Tcsetpgrp_def Tcsetattr_def njobmax_def rest fr)
  with m to rest show ?thesis
    by (simp add: zero_job_def)
qed

theorem monitorjob_stopped_moves_job_witness:
  "1 \<le> njobmax fg_job \<and>
   monitor_loop [(Some 7, [(100, 4991)])] 0 (Tcsetpgrp (pgid (jobs fg_job ! 0)) fg_job) =
     Some (Inr (STOPPED, 0, [],
       fg_job\<lparr>jobs := [\<lparr>pgid = 100,
                          proc = [\<lparr>pid = 100, pstate = STOPPED, pexitcode = 4991\<rparr>],
                          tmodes = 1, state = STOPPED, command = Some ''vi''\<rparr>],
               tty_pgrp := 100, tty_modes := 7\<rparr>)) \<and>
   monitorjob [(Some 7, [(100, 4991)])] fg_job = Some (Inr (0, [], stopped_job))"
proof -
  have h1: "1 \<le> njobmax fg_job" by (simp add: fg_job_def njobmax_def)
  show ?thesis
    using h1 monitor_loop_fg_job monitorjob_stopped_moves_job [OF h1 monitor_loop_fg_job]
    by (simp add: jobs_defs fg_job_def stopped_job_def)
qed

subsection \<open>Resuming a job\<close>

lemma select_from_spec:
  "select_from js n \<le> n \<and>
   (0 < select_from js n \<longrightarrow> state (js ! select_from js n) \<noteq> FINISHED) \<and>
   (\<forall>i. select_from js n < i \<and> i \<le> n \<longrightarrow> state (js ! i) = FINISHED)"
proof (induction n)
  case 0
  then show ?case by simp
next
  case (Suc n)
  show ?case
  proof (cases "state (js ! Suc n) = FINISHED")
    case True
    with Suc show ?thesis by (auto simp: le_Suc_eq)
  next
    case False
    then show ?thesis by simp
  qed
qed

lemma reuse_freed_reached:
  "addjob 100 True (initjobs 50 1) =
     Inr (1, (initjobs 50 1)\<lparr>jobs := [zero_job,
        \<lparr>pgid = 100, proc = [], tmodes = 1, state = RUNNING, command = None\<rparr>]\<rparr>)"
  "addproc 1 100 [''a'']
     ((initjobs 50 1)\<lparr>jobs := [zero_job,
        \<lparr>pgid = 100, proc = [], tmodes = 1, state = RUNNING, command = None\<rparr>]\<rparr>) =
     Inr ((initjobs 50 1)\<lparr>jobs := [zero_job,
        \<lparr>pgid = 100, proc = [\<lparr>pid = 100, pstate = RUNNING, pexitcode = -1\<rparr>], tmodes = 1,
         state = RUNNING, command = Some ''a''\<rparr>]\<rparr>)"
  "addjob 200 True
     ((initjobs 50 1)\<lparr>jobs := [zero_job,
        \<lparr>pgid = 100, proc = [\<lparr>pid = 100, pstate = RUNNING, pexitcode = -1\<rparr>], tmodes = 1,
         state = RUNNING, command = Some ''a''\<rparr>]\<rparr>) =
     Inr (2, (initjobs 50 1)\<lparr>jobs := [zero_job,
        \<lparr>pgid = 100, proc = [\<lparr>pid = 100, pstate = RUNNING, pexitcode = -1\<rparr>], tmodes = 1,
         state = RUNNING, command = Some ''a''\<rparr>,
        \<lparr>pgid = 200, proc = [], tmodes = 1, state = RUNNING, command = None\<rparr>]\<rparr>)"
  "addproc 2 200 [''b'']
     ((initjobs 50 1)\<lparr>jobs := [zero_job,
        \<lparr>pgid = 100, proc = [\<lparr>pid = 100, pstate = RUNNING, pexitcode = -1\<rparr>], tmodes = 1,
         state = RUNNING, command = Some ''a''\<rparr>,
        \<lparr>pgid = 200, proc = [], tmodes = 1, state = RUNNING, command = None\<rparr>]\<rparr>) =
     Inr ((initjobs 50 1)\<lparr>jobs := [zero_job,
        \<lparr>pgid = 100, proc = [\<lparr>pid = 100, pstate = RUNNING, pexitcode = -1\<rparr>], tmodes = 1,
         state = RUNNING, command = Some ''a''\<rparr>,
        \<lparr>pgid = 200, proc = [\<lparr>pid = 200, pstate = RUNNING, pexitcode = -1\<rparr>], tmodes = 1,
         state = RUNNING, command = Some ''b''\<rparr>]\<rparr>)"
  "jobstate 1 0 (sigchld_handler [(100, 0), (200, 4991)]
     ((initjobs 50 1)\<lparr>jobs := [zero_job,
        \<lparr>pgid = 100, proc = [\<lparr>pid = 100, pstate = RUNNING, pexitcode = -1\<rparr>], tmodes = 1,
         state = RUNNING, command = Some ''a''\<rparr>,
        \<lparr>pgid = 200, proc = [\<lparr>pid = 200, pstate = RUNNING, pexitcode = -1\<rparr>], tmodes = 1,
         state = RUNNING, command = Some ''b''\<rparr>]\<rparr>)) =
     Inr (FINISHED, 0, reuse_freed)"
  by (simp_all add: jobs_defs reuse_freed_def)

text \<open>
  Claim C6 has the most recently allocated job selected. In \<open>reuse_freed\<close> slot 1 is
  free again, so the job allocated last, group 300, gets slot 1; asked to resume without
  a job named, the shell continues the older job in slot 2, group 200.
\<close>

theorem resumejob_most_recent_counterexample:
  "addjob 300 True reuse_freed =
     Inr (1, reuse_freed\<lparr>jobs := (jobs reuse_freed)[1 :=
        \<lparr>pgid = 300, proc = [], tmodes = 1, state = RUNNING, command = None\<rparr>]\<rparr>) \<and>
   addproc 1 300 [''c'']
     (reuse_freed\<lparr>jobs := (jobs reuse_freed)[1 :=
        \<lparr>pgid = 300, proc = [], tmodes = 1, state = RUNNING, command = None\<rparr>]\<rparr>) =
     Inr (reuse_freed\<lparr>jobs := (jobs reuse_freed)[1 :=
        \<lparr>pgid = 300, proc = [\<lparr>pid = 300, pstate = RUNNING, pexitcode = -1\<rparr>], tmodes = 1,
         state = RUNNING, command = Some ''c''\<rparr>]\<rparr>) \<and>
   sigchld_handler [(300, 4991)]
     (reuse_freed\<lparr>jobs := (jobs reuse_freed)[1 :=
        \<lparr>pgid = 300, proc = [\<lparr>pid = 300, pstate = RUNNING, pexitcode = -1\<rparr>], tmodes = 1,
         state = RUNNING, command = Some ''c''\<rparr>]\<rparr>) = reuse_state \<and>
   select_job reuse_state = 2 \<and>
   resumejob (-1) True [] reuse_state =
     Some (Inr (True, [],
       reuse_state\<lparr>sent := [(-200, SIGCONT)],
                    out := [(''[%d] continue '%s'\<newline>'', [ArgInt 2, ArgStr (Some ''b'')])]\<rparr>))"
  by (simp add: jobs_defs reuse_freed_def reuse_state_def numeral_2_eq_2)

lemma nth_in_tl:
  assumes "1 \<le> i" and "i < length xs"
  shows "xs ! i \<in> set (tl xs)"
proof (cases xs)
  case Nil
  with assms show ?thesis by simp
next
  case (Cons x ys)
  from assms obtain i' where i': "i = Suc i'" by (cases i) auto
  with assms Cons have "i' < length ys" by simp
  then have "ys ! i' \<in> set ys" by simp
  with Cons i' show ?thesis by simp
qed

text \<open>
  Claim C6, amended. Take a table with at least slot 0 in which every free slot above 0
  is marked \<open>FINISHED\<close>, as \<open>deljob\<close> leaves it. Called with a negative index,
  \<open>resumejob\<close> goes on as if called with \<open>select_job\<close>, which is the highest slot
  above 0 that holds a job (its group is not 0) whose state is not \<open>FINISHED\<close>,
  whatever the order in which the jobs were allocated, and slot 0 when there is no such
  job.
\<close>

theorem resumejob_selects_highest_job:
  assumes "1 \<le> njobmax s" and "j0 < 0"
    and "\<forall>job\<in>set (tl (jobs s)). pgid job = 0 \<longrightarrow> state job = FINISHED"
  shows "resumejob j0 bg ws s = resumejob (select_job s) bg ws s \<and>
         0 \<le> select_job s \<and> select_job s < njobmax s \<and>
         (0 < select_job s \<longrightarrow>
            pgid (jobs s ! nat (select_job s)) \<noteq> 0 \<and>
            state (jobs s ! nat (select_job s)) \<noteq> FINISHED) \<and>
         (\<forall>i. select_job s < i \<and> i < njobmax s \<longrightarrow> state (jobs s ! nat i) = FINISHED)"
proof -
  let ?n = "nat (njobmax s - 1)"
  have sel: "select_job s = int (select_from (jobs s) ?n)"
    using assms(1) by (simp add: select_job_def)
  note sp = select_from_spec [of "jobs s" ?n]
  have nonneg: "0 \<le> select_job s" by (simp add: sel)
  have lt: "select_job s < njobmax s"
  proof -
    from sp have "select_from (jobs s) ?n \<le> ?n" by blast
    with assms(1) show ?thesis unfolding sel by linarith
  qed
  have a: "resumejob j0 bg ws s = resumejob (select_job s) bg ws s"
    using assms(2) nonneg by (simp add: resumejob_def)
  have b: "0 < select_job s \<longrightarrow>
             pgid (jobs s ! nat (select_job s)) \<noteq> 0 \<and>
             state (jobs s ! nat (select_job s)) \<noteq> FINISHED"
  proof
    assume pos: "0 < select_job s"
    with sp have nf: "state (jobs s ! nat (select_job s)) \<noteq> FINISHED" by (simp add: sel)
    have "1 \<le> nat (select_job s)" using pos by simp
    moreover have "nat (select_job s) < length (jobs s)"
      using lt nonneg by (simp add: njobmax_def)
    ultimately have "jobs s ! nat (select_job s) \<in> set (tl (jobs s))" by (rule nth_in_tl)
    with assms(3) nf have "pgid (jobs s ! nat (select_job s)) \<noteq> 0" by blast
    with nf show "pgid (jobs s ! nat (select_job s)) \<noteq> 0 \<and>
                  state (jobs s ! nat (select_job s)) \<noteq> FINISHED" by simp
  qed
  have c: "\<forall>i. select_job s < i \<and> i < njobmax s \<longrightarrow> state (jobs s ! nat i) = FINISHED"
  proof (intro allI impI)
    fix i assume i: "select_job s < i \<and> i < njobmax s"
    then have "select_from (jobs s) ?n < nat i \<and> nat i \<le> ?n" by (auto simp: sel)
    with sp show "state (jobs s ! nat i) = FINISHED" by blast
  qed
  from a nonneg lt b c show ?thesis by blast
qed

theorem resumejob_selects_highest_job_witness:
  "map (\<lambda>job. (pgid job, state job)) (jobs reuse_freed) =
     [(0, 0), (0, FINISHED), (200, STOPPED)] \<and>
   resumejob (-1) True [] reuse_freed = resumejob 2 True [] reuse_freed \<and>
   select_job reuse_freed = 2 \<and>
   pgid (jobs reuse_freed ! nat (select_job reuse_freed)) = 200 \<and>
   map (\<lambda>job. (pgid job, state job)) (jobs one_job) =
     [(0, 0), (100, STOPPED), (200, FINISHED)] \<and>
   resumejob (-1) True [] one_job = resumejob 1 True [] one_job \<and>
   select_job one_job = 1 \<and>
   pgid (jobs one_job ! nat (select_job one_job)) = 100"
proof -
  have h: "1 \<le> njobmax reuse_freed" "(-1::int) < 0"
    "\<forall>job\<in>set (tl (jobs reuse_freed)). pgid job = 0 \<longrightarrow> state job = FINISHED"
    by (simp_all add: reuse_freed_def njobmax_def)
  have s: "select_job reuse_freed = 2"
    by (simp add: jobs_defs reuse_freed_def numeral_2_eq_2)
  have m: "map (\<lambda>job. (pgid job, state job)) (jobs reuse_freed) =
     [(0, 0), (0, FINISHED), (200, STOPPED)]"
    by (simp add: reuse_freed_def zero_job_def)
  have h': "1 \<le> njobmax one_job"
    "\<forall>job\<in>set (tl (jobs one_job)). pgid job = 0 \<longrightarrow> state job = FINISHED"
    by (simp_all add: one_job_def njobmax_def)
  have s': "select_job one_job = 1"
    by (simp add: jobs_defs one_job_def numeral_2_eq_2)
  have m': "map (\<lambda>job. (pgid job, state job)) (jobs one_job) =
     [(0, 0), (100, STOPPED), (200, FINISHED)]"
    by (simp add: one_job_def zero_job_def)
  show ?thesis
    using s m s' m'
      resumejob_selects_highest_job [OF h, of True "[]"]
      resumejob_selects_highest_job [OF h'(1) h(2) h'(2), of True "[]"]
    by (simp add: reuse_freed_def one_job_def)
qed

text \<open>
  The premise on the free slots matters. A slot that \<open>movejob\<close> has cleared is free
  but holds state 0, which is none of the three states. In \<open>cleared_state\<close> the loop
  stops at the cleared slot 2: nothing is continued and the stopped job in slot 1 is
  passed over.
\<close>

lemma select_job_cleared_slot:
  "resumejob 2 False [(None, [(200, 65535)]), (None, [(200, 0)])] reuse_state =
     Some (Inr (True, [], cleared_state)) \<and>
   pgid (jobs cleared_state ! 2) = 0 \<and>
   state (jobs cleared_state ! 2) = 0 \<and>
   select_job cleared_state = 2 \<and>
   resumejob (-1) True [] cleared_state = Some (Inr (True, [], cleared_state))"
proof -
  have "resumejob 2 False [(None, [(200, 65535)]), (None, [(200, 0)])] reuse_state =
     Some (Inr (True, [], cleared_state))"
    by (simp add: jobs_defs reuse_state_def cleared_state_def)
  moreover have "select_job cleared_state = 2 \<and>
      resumejob (-1) True [] cleared_state = Some (Inr (True, [], cleared_state))"
    by (simp add: jobs_defs cleared_state_def numeral_2_eq_2)
  ultimately show ?thesis by (simp add: cleared_state_def zero_job_def)
qed

text \<open>
  Claim C7 has every call without terminal control report it. With the shell not in the
  terminal's foreground group, a call that names a finished job or an index beyond the
  table returns false and prints nothing.
\<close>

theorem resumejob_silent_counterexample:
  "tty_pgrp (one_job\<lparr>tty_pgrp := 60\<rparr>) \<noteq> shell_pgrp (one_job\<lparr>tty_pgrp := 60\<rparr>) \<and>
   resumejob 2 False [] (one_job\<lparr>tty_pgrp := 60\<rparr>) =
     Some (Inr (False, [], one_job\<lparr>tty_pgrp := 60\<rparr>)) \<and>
   resumejob 5 False [] (one_job\<lparr>tty_pgrp := 60\<rparr>) =
     Some (Inr (False, [], one_job\<lparr>tty_pgrp := 60\<rparr>)) \<and>
   out (one_job\<lparr>tty_pgrp := 60\<rparr>) = []"
  by (simp add: jobs_defs one_job_def)

text \<open>
  Claim C7, amended. When the shell's group is not the terminal's foreground group or
  slot 0 is taken, \<open>resumejob\<close> returns false without waiting and leaves the table,
  the terminal and the signals sent as they were. It prints \<^verbatim>\<open>No task control!\<close> when
  the job named or selected is inside the table and not \<open>FINISHED\<close>, and nothing
  otherwise.
\<close>

theorem resumejob_no_control:
  assumes "1 \<le> njobmax s"
    and "tty_pgrp s \<noteq> shell_pgrp s \<or> pgid (jobs s ! 0) \<noteq> 0"
    and "j = (if j0 < 0 then select_job s else j0)"
  shows "resumejob j0 bg ws s =
     Some (Inr (False, ws,
       if j \<ge> njobmax s \<or> state (jobs s ! nat j) = FINISHED then s
       else s\<lparr>out := out s @ [(''No task control!\<newline>'', [])]\<rparr>))"
proof -
  have "0 \<le> select_job s" using assms(1) by (simp add: select_job_def)
  then have "0 \<le> j" using assms(3) by (simp split: if_splits)
  then show ?thesis
    using assms(2,3) by (auto simp: resumejob_def Let_def msg_def)
qed

theorem resumejob_no_control_witness:
  "1 \<le> njobmax (one_job\<lparr>tty_pgrp := 60\<rparr>) \<and>
   tty_pgrp (one_job\<lparr>tty_pgrp := 60\<rparr>) \<noteq> shell_pgrp (one_job\<lparr>tty_pgrp := 60\<rparr>) \<and>
   resumejob 1 False [] (one_job\<lparr>tty_pgrp := 60\<rparr>) =
     Some (Inr (False, [],
       one_job\<lparr>tty_pgrp := 60, out := [(''No task control!\<newline>'', [])]\<rparr>))"
proof -
  have h1: "1 \<le> njobmax (one_job\<lparr>tty_pgrp := 60\<rparr>)"
    by (simp add: one_job_def njobmax_def)
  have h2: "tty_pgrp (one_job\<lparr>tty_pgrp := 60\<rparr>) \<noteq> shell_pgrp (one_job\<lparr>tty_pgrp := 60\<rparr>)
      \<or> pgid (jobs (one_job\<lparr>tty_pgrp := 60\<rparr>) ! 0) \<noteq> 0"
    by (simp add: one_job_def)
  have h3: "(1::int) = (if (1::int) < 0 then select_job (one_job\<lparr>tty_pgrp := 60\<rparr>) else 1)"
    by simp
  show ?thesis
    using h1 resumejob_no_control [OF h1 h2 h3, of False "[]"]
    by (simp add: one_job_def state_defs njobmax_def zero_job_def)
qed

section \<open>Properties of the launcher\<close>

subsection \<open>Redirections\<close>

lemmas open_defs = O_RDONLY_def O_WRONLY_def O_ACCMODE_def O_CREAT_def O_TRUNC_def O_APPEND_def
  S_IRUSR_def S_IWUSR_def S_IRGRP_def S_IWGRP_def S_IROTH_def

lemmas shell_defs =
  open_defs lowest_fd_def Open_def Close_def MaybeClose_def mkpipe_def write_at_def
  sys_write_def redir_step_def do_redir_def Fork_def do_stage_def addproc_token_def
  pipeline_first_def stage_iter_def pipeline_spawn_def do_pipeline_def is_redir_def
  valid_fds_def

lemma redir_step_regular:
  assumes "redir_step base i r = Inr r1" and "\<not> is_redir (r_token r ! (base + i))"
  shows "base + i < length (r_token r) \<and>
         r1 = (if r_mode r = T_NULL then r\<lparr>r_n := r_n r + 1\<rparr>
               else r\<lparr>r_token := (r_token r)[base + i := T_NULL]\<rparr>)"
  using assms by (auto simp: redir_step_def is_redir_def split: if_splits)

lemma redir_step_redir:
  assumes "redir_step base i r = Inr r1" and "is_redir (r_token r ! (base + i))"
  shows "base + i < length (r_token r) \<and> r_token r1 = r_token r \<and>
         r_mode r1 = r_token r ! (base + i) \<and>
         r_n r1 = (if r_mode r = T_NULL then int i else r_n r)"
  using assms
  by (auto simp: redir_step_def is_redir_def split: if_splits sum.splits prod.splits)

lemma redir_step_length:
  assumes "redir_step base i r = Inr r1"
  shows "base + i < length (r_token r) \<and> length (r_token r1) = length (r_token r)"
  using assms
  by (auto simp: redir_step_def split: if_splits sum.splits prod.splits)

lemma redir_step_tokens:
  assumes "redir_step base i r = Inr r1"
  shows "r_token r1 = r_token r \<or>
         (r_token r1 = (r_token r)[base + i := T_NULL] \<and> \<not> is_redir (r_token r ! (base + i)))"
  using assms
  by (auto simp: redir_step_def is_redir_def split: if_splits sum.splits prod.splits)

lemma redir_loop_add:
  "redir_loop base i (k1 + k2) r =
     (case redir_loop base i k1 r of
        Inl e \<Rightarrow> Inl e
      | Inr r1 \<Rightarrow> redir_loop base (i + k1) k2 r1)"
proof (induction k1 arbitrary: i r)
  case 0
  then show ?case by simp
next
  case (Suc k1)
  show ?case
  proof (cases "redir_step base i r")
    case (Inl e)
    then show ?thesis by simp
  next
    case (Inr r1)
    then show ?thesis using Suc.IH [of "Suc i" r1] by (simp split: sum.splits)
  qed
qed

lemma redir_loop_length:
  assumes "redir_loop base i k r = Inr r'"
  shows "(0 < k \<longrightarrow> base + i + k \<le> length (r_token r)) \<and>
         length (r_token r') = length (r_token r)"
  using assms
proof (induction k arbitrary: i r)
  case 0
  then show ?case by simp
next
  case (Suc k)
  from Suc.prems obtain r1 where st: "redir_step base i r = Inr r1"
    and lp: "redir_loop base (Suc i) k r1 = Inr r'"
    by (auto split: sum.splits)
  from redir_step_length [OF st] Suc.IH [OF lp] show ?case
    by (cases k) auto
qed

lemma redir_loop_regular:
  assumes "redir_loop base i k r = Inr r'" and "r_mode r = T_NULL"
    and "\<forall>j < k. \<not> is_redir (r_token r ! (base + i + j))"
  shows "r' = r\<lparr>r_n := r_n r + int k\<rparr> \<and> (0 < k \<longrightarrow> base + i + k \<le> length (r_token r))"
  using assms
proof (induction k arbitrary: i r)
  case 0
  then show ?case by simp
next
  case (Suc k)
  from Suc.prems(1) obtain r1 where st: "redir_step base i r = Inr r1"
    and lp: "redir_loop base (Suc i) k r1 = Inr r'"
    by (auto split: sum.splits)
  from Suc.prems(3) have reg: "\<not> is_redir (r_token r ! (base + i))" by force
  from redir_step_regular [OF st reg] Suc.prems(2)
  have r1: "r1 = r\<lparr>r_n := r_n r + 1\<rparr>" and bd: "base + i < length (r_token r)" by simp_all
  have "\<forall>j < k. \<not> is_redir (r_token r1 ! (base + Suc i + j))"
    using Suc.prems(3) by (auto simp: r1)
  from Suc.IH [OF lp _ this] Suc.prems(2)
  have "r' = r1\<lparr>r_n := r_n r1 + int k\<rparr>" "0 < k \<longrightarrow> base + Suc i + k \<le> length (r_token r1)"
    by (simp_all add: r1)
  then show ?case using bd by (cases k) (simp_all add: r1)
qed

lemma redir_loop_after:
  assumes "redir_loop base i k r = Inr r'" and "r_mode r \<noteq> T_NULL" and "is_redir (r_mode r)"
  shows "r_n r' = r_n r \<and> length (r_token r') = length (r_token r) \<and>
         (0 < k \<longrightarrow> base + i + k \<le> length (r_token r)) \<and>
         (\<forall>j. j < base + i \<or> base + i + k \<le> j \<longrightarrow> r_token r' ! j = r_token r ! j) \<and>
         (\<forall>j. base + i \<le> j \<and> j < base + i + k \<longrightarrow>
            r_token r' ! j = (if is_redir (r_token r ! j) then r_token r ! j else T_NULL))"
  using assms
proof (induction k arbitrary: i r)
  case 0
  then show ?case by auto
next
  case (Suc k)
  from Suc.prems(1) obtain r1 where st: "redir_step base i r = Inr r1"
    and lp: "redir_loop base (Suc i) k r1 = Inr r'"
    by (auto split: sum.splits)
  have r1: "base + i < length (r_token r) \<and> r_n r1 = r_n r \<and> is_redir (r_mode r1) \<and>
      r_token r1 = (if is_redir (r_token r ! (base + i)) then r_token r
                    else (r_token r)[base + i := T_NULL])"
  proof (cases "is_redir (r_token r ! (base + i))")
    case True
    from redir_step_redir [OF st True] Suc.prems(2) True show ?thesis by simp
  next
    case False
    from redir_step_regular [OF st False] Suc.prems(2,3) False show ?thesis by simp
  qed
  then have m1: "r_mode r1 \<noteq> T_NULL" by (auto simp: is_redir_def)
  from r1 have red1: "is_redir (r_mode r1)" by simp
  note ih = Suc.IH [OF lp m1 red1]
  have len1: "length (r_token r1) = length (r_token r)" using r1 by (simp split: if_splits)
  have same: "\<And>j. j \<noteq> base + i \<Longrightarrow> r_token r1 ! j = r_token r ! j"
    using r1 by (simp split: if_splits)
  have at: "r_token r1 ! (base + i) =
      (if is_redir (r_token r ! (base + i)) then r_token r ! (base + i) else T_NULL)"
    using r1 by (simp split: if_splits)
  show ?case
  proof (intro conjI allI impI)
    show "r_n r' = r_n r" using ih r1 by simp
    show "length (r_token r') = length (r_token r)" using ih len1 by simp
    show "base + i + Suc k \<le> length (r_token r)"
      using ih r1 len1 by (cases k) auto
  next
    fix j assume "j < base + i \<or> base + i + Suc k \<le> j"
    then have "j < base + Suc i \<or> base + Suc i + k \<le> j" "j \<noteq> base + i" by auto
    with ih same show "r_token r' ! j = r_token r ! j" by metis
  next
    fix j assume j: "base + i \<le> j \<and> j < base + i + Suc k"
    show "r_token r' ! j = (if is_redir (r_token r ! j) then r_token r ! j else T_NULL)"
    proof (cases "j = base + i")
      case True
      then have "j < base + Suc i" by simp
      with ih have "r_token r' ! j = r_token r1 ! j" by blast
      with at True show ?thesis by simp
    next
      case False
      with j have "base + Suc i \<le> j \<and> j < base + Suc i + k" by auto
      with ih have "r_token r' ! j =
          (if is_redir (r_token r1 ! j) then r_token r1 ! j else T_NULL)" by blast
      with same [OF False] show ?thesis by simp
    qed
  qed
qed

lemma take_drop_eqI:
  assumes "length xs = length ys" and "\<forall>j < m. xs ! (b + j) = ys ! (b + j)"
  shows "take m (drop b xs) = take m (drop b ys)"
proof (rule nth_equalityI)
  show "length (take m (drop b xs)) = length (take m (drop b ys))"
    using assms(1) by simp
next
  fix j assume "j < length (take m (drop b xs))"
  then have "j < m" "b + j < length xs" by auto
  with assms show "take m (drop b xs) ! j = take m (drop b ys) ! j"
    by simp
qed

lemma takeWhile_stop: "takeWhile (\<lambda>t. t \<noteq> x) (xs @ x # ys) = takeWhile (\<lambda>t. t \<noteq> x) xs"
  by (induction xs) auto

lemma do_redir_ls:
  "do_redir ls_tokens 0 5 (-1) (-1) term_world =
     Inr (2, [Word ''ls'', Word ''-l'', T_NULL, T_NULL, T_NULL, T_NULL], -1, 4, ls_world)"
  by (simp add: shell_defs ls_tokens_def term_world_def ls_world_def tty_def
      eval_nat_numeral Let_def)

text \<open>What \<open>do_redir\<close> leaves of the tokens it was given.\<close>

lemma do_redir_prefix:
  assumes "do_redir toks base ntokens inp outp w = Inr (n, toks', inp', outp', w')"
  shows "(let pre = takeWhile (\<lambda>t. \<not> is_redir t) (take (nat ntokens) (drop base toks)) in
          n = int (length pre) \<and>
          take (nat n) (drop base toks') = pre \<and>
          toks' ! (base + nat n) = T_NULL \<and>
          (\<forall>i. nat n < i \<and> i < nat ntokens \<and> \<not> is_redir (toks ! (base + i)) \<longrightarrow>
             toks' ! (base + i) = T_NULL) \<and>
          takeWhile (\<lambda>t. t \<noteq> T_NULL) (drop base toks') =
            takeWhile (\<lambda>t. t \<noteq> T_NULL) pre)"
proof -
  let ?P = "\<lambda>t. \<not> is_redir t"
  let ?r0 = "\<lparr>r_token = toks, r_mode = T_NULL, r_n = 0, r_input = inp, r_output = outp,
              r_world = w\<rparr>"
  define K where "K = nat ntokens"
  define view where "view = take K (drop base toks)"
  define pre where "pre = takeWhile ?P view"
  define m where "m = length pre"
  from assms obtain r where lp: "redir_loop base 0 K ?r0 = Inr r"
    and n: "n = r_n r" and n0: "0 \<le> r_n r" and bd: "base + nat (r_n r) < length (r_token r)"
    and toks': "toks' = (r_token r)[base + nat (r_n r) := T_NULL]"
    by (auto simp: do_redir_def K_def split: sum.splits if_splits)
  from redir_loop_length [OF lp]
  have len: "length (r_token r) = length toks" and K: "0 < K \<longrightarrow> base + K \<le> length toks"
    by simp_all
  have lview: "length view = K" using K by (cases "0 < K") (auto simp: view_def)
  have view_nth: "\<And>j. j < K \<Longrightarrow> view ! j = toks ! (base + j)"
    using K by (cases "0 < K") (auto simp: view_def)
  have mK: "m \<le> K" using length_takeWhile_le [of ?P view] lview by (simp add: m_def pre_def)
  have pre_reg: "\<forall>j < m. \<not> is_redir (toks ! (base + j))"
  proof (intro allI impI)
    fix j assume j: "j < m"
    then have "pre ! j \<in> set pre" by (simp add: m_def)
    then have "?P (pre ! j)" unfolding pre_def by (rule set_takeWhileD [THEN conjunct2])
    moreover have "pre ! j = view ! j"
      using j unfolding pre_def m_def by (rule takeWhile_nth)
    ultimately show "\<not> is_redir (toks ! (base + j))" using view_nth j mK by simp
  qed
  have pre_take: "pre = take m (drop base toks)"
  proof -
    have "pre = take m view" unfolding pre_def m_def by (rule takeWhile_eq_take)
    also have "\<dots> = take m (drop base toks)" using mK by (simp add: view_def min_def)
    finally show ?thesis .
  qed
  have main: "r_n r = int m \<and>
      (\<forall>j < m. r_token r ! (base + j) = toks ! (base + j)) \<and>
      (\<forall>i. m < i \<and> i < K \<and> \<not> is_redir (toks ! (base + i)) \<longrightarrow>
           r_token r ! (base + i) = T_NULL)"
  proof (cases "m = K")
    case True
    with pre_reg have "\<forall>j < K. \<not> is_redir (r_token ?r0 ! (base + 0 + j))" by simp
    from redir_loop_regular [OF lp _ this] have req: "r = ?r0\<lparr>r_n := int K\<rparr>" by simp
    have "r_n r = int m" using True by (simp add: req)
    moreover have "\<forall>j < m. r_token r ! (base + j) = toks ! (base + j)"
      by (simp add: req)
    moreover have "\<forall>i. m < i \<and> i < K \<and> \<not> is_redir (toks ! (base + i)) \<longrightarrow>
           r_token r ! (base + i) = T_NULL"
      using True by auto
    ultimately show ?thesis by blast
  next
    case False
    with mK have mlt: "m < K" by simp
    from less_imp_Suc_add [OF mlt] obtain k2 where "K = Suc (m + k2)" ..
    then have k2: "K = m + Suc k2" by simp
    have red: "is_redir (toks ! (base + m))"
    proof -
      have "length (takeWhile ?P view) < length view"
        using mlt lview by (simp add: m_def pre_def)
      then have "\<not> ?P (view ! length (takeWhile ?P view))" by (rule nth_length_takeWhile)
      then show ?thesis using view_nth [OF mlt] by (simp add: m_def pre_def)
    qed
    from lp obtain r1 where l1: "redir_loop base 0 m ?r0 = Inr r1"
      and l2: "redir_loop base m (Suc k2) r1 = Inr r"
      unfolding k2 redir_loop_add by (auto split: sum.splits)
    have "\<forall>j < m. \<not> is_redir (r_token ?r0 ! (base + 0 + j))" using pre_reg by simp
    from redir_loop_regular [OF l1 _ this] have r1: "r1 = ?r0\<lparr>r_n := int m\<rparr>" by simp
    from l2 obtain r2 where st: "redir_step base m r1 = Inr r2"
      and l3: "redir_loop base (Suc m) k2 r2 = Inr r"
      by (auto split: sum.splits)
    have red1: "is_redir (r_token r1 ! (base + m))" using red by (simp add: r1)
    from redir_step_redir [OF st red1]
    have r2: "r_token r2 = toks" "r_mode r2 = toks ! (base + m)" "r_n r2 = int m"
      by (simp_all add: r1)
    have m2: "r_mode r2 \<noteq> T_NULL" "is_redir (r_mode r2)"
      using red r2 by (auto simp: is_redir_def)
    from redir_loop_after [OF l3 m2]
    have a: "r_n r = int m"
      and b: "\<forall>j. j < base + Suc m \<or> base + Suc m + k2 \<le> j \<longrightarrow> r_token r ! j = toks ! j"
      and c: "\<forall>j. base + Suc m \<le> j \<and> j < base + Suc m + k2 \<longrightarrow>
                r_token r ! j = (if is_redir (toks ! j) then toks ! j else T_NULL)"
      by (simp_all add: r2)
    have "\<forall>j < m. r_token r ! (base + j) = toks ! (base + j)"
      using b by simp
    moreover have "\<forall>i. m < i \<and> i < K \<and> \<not> is_redir (toks ! (base + i)) \<longrightarrow>
           r_token r ! (base + i) = T_NULL"
    proof (intro allI impI)
      fix i assume i: "m < i \<and> i < K \<and> \<not> is_redir (toks ! (base + i))"
      then have "base + Suc m \<le> base + i \<and> base + i < base + Suc m + k2"
        using k2 by linarith
      with c i show "r_token r ! (base + i) = T_NULL" by simp
    qed
    ultimately show ?thesis using a by blast
  qed
  have nm: "nat n = m" "n = int m" using main n by simp_all
  have t1: "take m (drop base toks') = pre"
  proof -
    have "take m (drop base toks') = take m (drop base toks)"
    proof (rule take_drop_eqI)
      show "length toks' = length toks" by (simp add: toks' len)
      show "\<forall>j < m. toks' ! (base + j) = toks ! (base + j)"
        using main nm by (simp add: toks' n)
    qed
    then show ?thesis by (simp add: pre_take [symmetric])
  qed
  have t2: "toks' ! (base + m) = T_NULL"
    using bd main by (simp add: toks')
  have t3: "\<forall>i. m < i \<and> i < K \<and> \<not> is_redir (toks ! (base + i)) \<longrightarrow>
             toks' ! (base + i) = T_NULL"
    using main by (simp add: toks')
  have t4: "takeWhile (\<lambda>t. t \<noteq> T_NULL) (drop base toks') =
            takeWhile (\<lambda>t. t \<noteq> T_NULL) pre"
  proof -
    have lt: "m < length (drop base toks')" using bd main by (simp add: toks')
    have x: "drop base toks' ! m = T_NULL" using lt t2 by simp
    note e = id_take_nth_drop [OF lt]
    note e' = e [unfolded t1 x]
    show ?thesis by (subst e') (rule takeWhile_stop)
  qed
  have "n = int (length pre) \<and> take (nat n) (drop base toks') = pre \<and>
        toks' ! (base + nat n) = T_NULL \<and>
        (\<forall>i. nat n < i \<and> i < K \<and> \<not> is_redir (toks ! (base + i)) \<longrightarrow>
             toks' ! (base + i) = T_NULL) \<and>
        takeWhile (\<lambda>t. t \<noteq> T_NULL) (drop base toks') =
            takeWhile (\<lambda>t. t \<noteq> T_NULL) pre"
    using nm t1 t2 t3 t4 by (simp add: m_def)
  then show ?thesis
    unfolding Let_def pre_def view_def K_def .
qed

text \<open>
  Claim C9. When \<open>do_redir\<close> returns, the count it returns is the number of tokens
  before the first redirection operator; the array holds exactly these tokens from
  \<open>base\<close> on, followed by a null pointer; every later token that is no redirection
  operator has been overwritten with a null pointer; and the argument vector read from
  \<open>base\<close> up to the first null pointer holds only tokens from before the first
  redirection operator. So arguments written after a redirection are dropped.
\<close>

theorem do_redir_keeps_prefix:
  assumes "do_redir toks base ntokens inp outp w = Inr (n, toks', inp', outp', w')"
  shows "(let pre = takeWhile (\<lambda>t. \<not> is_redir t) (take (nat ntokens) (drop base toks)) in
          n = int (length pre) \<and>
          take (nat n) (drop base toks') = pre \<and>
          toks' ! (base + nat n) = T_NULL \<and>
          (\<forall>i. nat n < i \<and> i < nat ntokens \<and> \<not> is_redir (toks ! (base + i)) \<longrightarrow>
             toks' ! (base + i) = T_NULL) \<and>
          takeWhile (\<lambda>t. t \<noteq> T_NULL) (drop base toks') =
            takeWhile (\<lambda>t. t \<noteq> T_NULL) pre)"
  using do_redir_prefix [OF assms] .

theorem do_redir_keeps_prefix_witness:
  "do_redir ls_tokens 0 5 (-1) (-1) term_world =
     Inr (2, [Word ''ls'', Word ''-l'', T_NULL, T_NULL, T_NULL, T_NULL], -1, 4, ls_world) \<and>
   takeWhile (\<lambda>t. \<not> is_redir t) (take (nat 5) (drop 0 ls_tokens)) = [Word ''ls'', Word ''-l'']"
  using do_redir_ls do_redir_keeps_prefix [OF do_redir_ls]
  by (simp add: ls_tokens_def is_redir_def)

subsection \<open>Opening the target of an output redirection\<close>

lemma output_flags:
  "(O_WRONLY OR O_CREAT) AND O_ACCMODE = O_WRONLY"
  "(O_WRONLY OR O_CREAT) AND O_TRUNC = 0"
  "(O_WRONLY OR O_CREAT) AND O_APPEND = 0"
  "O_RDONLY AND O_TRUNC = 0"
  "S_IWUSR OR S_IRUSR OR S_IRGRP OR S_IWGRP OR S_IROTH = 436"
  by (simp_all add: open_defs)

lemma find_Some_mem: "find P xs = Some x \<Longrightarrow> P x \<and> x \<in> set xs"
  by (induction xs) (auto split: if_splits)

lemma lowest_fd_nonneg: "0 \<le> lowest_fd tbl"
proof (cases "find (\<lambda>n. map_of tbl n = None) (map int [0..<Suc (length tbl)])")
  case None
  then show ?thesis by (simp add: lowest_fd_def)
next
  case (Some n)
  from find_Some_mem [OF Some] have "0 \<le> n" by auto
  with Some show ?thesis by (simp add: lowest_fd_def)
qed

lemma lowest_fd_free: "map_of tbl (lowest_fd tbl) = None"
proof (cases "find (\<lambda>n. map_of tbl n = None) (map int [0..<Suc (length tbl)])")
  case (Some n)
  from find_Some_mem [OF Some] have "map_of tbl n = None" by simp
  with Some show ?thesis by (simp add: lowest_fd_def)
next
  case None
  then have all: "\<forall>n \<in> set (map int [0..<Suc (length tbl)]). map_of tbl n \<noteq> None"
    by (auto simp: find_None_iff)
  have sub: "int ` {0..<Suc (length tbl)} \<subseteq> fst ` set tbl"
  proof
    fix x assume "x \<in> int ` {0..<Suc (length tbl)}"
    then have "x \<in> set (map int [0..<Suc (length tbl)])"
      by (simp only: set_map set_upt)
    with all have "map_of tbl x \<noteq> None" by blast
    then show "x \<in> fst ` set tbl" by (simp add: map_of_eq_None_iff)
  qed
  have "card (int ` {0..<Suc (length tbl)}) = Suc (length tbl)"
    by (simp add: card_image)
  moreover have "card (fst ` set tbl) \<le> length tbl"
    by (meson card_image_le card_length le_trans List.finite_set)
  moreover have "card (int ` {0..<Suc (length tbl)}) \<le> card (fst ` set tbl)"
    using sub by (simp add: card_mono)
  ultimately show ?thesis by linarith
qed

lemma map_of_filter_fst:
  "map_of (filter (\<lambda>e. fst e \<noteq> k) xs) x = (if x = k then None else map_of xs x)"
  by (induction xs) auto

lemma Open_Inr:
  assumes "Open path flags mode w = Inr (fd, w1)"
  shows "\<exists>name. path = Word name \<and> fd = lowest_fd (fds w) \<and>
           fds w1 = (fd, \<lparr>target = File name, oflags = flags, offset = 0, cloexec = False\<rparr>) # fds w \<and>
           opened w1 = opened w @ [(name, flags, mode)] \<and>
           (flags AND O_TRUNC = 0 \<longrightarrow>
              (\<forall>nm f. files w nm = Some f \<longrightarrow> files w1 nm = Some f))"
  using assms
  by (cases path) (auto simp: Open_def Let_def split: option.splits if_splits)

lemma MaybeClose_Inr:
  assumes "MaybeClose fd w = Inr (fd', w1)"
  shows "files w1 = files w \<and> opened w1 = opened w \<and>
         (fd < 0 \<longrightarrow> w1 = w \<and> fd' = fd) \<and>
         (0 \<le> fd \<longrightarrow> fds w1 = filter (\<lambda>e. fst e \<noteq> fd) (fds w) \<and> fd' = -1 \<and>
            map_of (fds w) fd \<noteq> None)"
  using assms
  by (auto simp: MaybeClose_def Close_def split: if_splits)

lemma redir_step_output:
  assumes "redir_step base i r = Inr r1" and "r_token r ! (base + i) = T_OUTPUT"
  shows "\<exists>fd0 wa. MaybeClose (r_output r) (r_world r) = Inr (fd0, wa) \<and>
           Open (r_token r ! (base + i + 1)) (O_WRONLY OR O_CREAT)
             (S_IWUSR OR S_IRUSR OR S_IRGRP OR S_IWGRP OR S_IROTH) wa =
             Inr (r_output r1, r_world r1) \<and>
           r_input r1 = r_input r \<and> r_token r1 = r_token r"
  using assms
  by (auto simp: redir_step_def split: if_splits sum.splits prod.splits)

lemma redir_step_input:
  assumes "redir_step base i r = Inr r1" and "r_token r ! (base + i) = T_INPUT"
  shows "\<exists>fd0 wa. MaybeClose (r_input r) (r_world r) = Inr (fd0, wa) \<and>
           Open (r_token r ! (base + i + 1)) O_RDONLY 0 wa = Inr (r_input r1, r_world r1) \<and>
           r_output r1 = r_output r \<and> r_token r1 = r_token r"
  using assms
  by (auto simp: redir_step_def split: if_splits sum.splits prod.splits)

lemma redir_step_other:
  assumes "redir_step base i r = Inr r1" and "r_token r ! (base + i) \<noteq> T_INPUT"
    and "r_token r ! (base + i) \<noteq> T_OUTPUT"
  shows "r_world r1 = r_world r \<and> r_input r1 = r_input r \<and> r_output r1 = r_output r"
  using assms
  by (auto simp: redir_step_def split: if_splits)

lemma redir_loop_tokens:
  assumes "redir_loop base i k r = Inr r'"
  shows "(\<forall>p. p < base + i \<or> base + i + k \<le> p \<longrightarrow> r_token r' ! p = r_token r ! p) \<and>
         (\<forall>p. r_token r' ! p = r_token r ! p \<or> r_token r' ! p = T_NULL)"
  using assms
proof (induction k arbitrary: i r)
  case 0
  then show ?case by simp
next
  case (Suc k)
  from Suc.prems obtain r1 where st: "redir_step base i r = Inr r1"
    and lp: "redir_loop base (Suc i) k r1 = Inr r'"
    by (auto split: sum.splits)
  note ih = Suc.IH [OF lp]
  from redir_step_length [OF st] have bd: "base + i < length (r_token r)" by simp
  from redir_step_tokens [OF st]
  have t1: "\<And>p. p \<noteq> base + i \<Longrightarrow> r_token r1 ! p = r_token r ! p"
    and t2: "\<And>p. r_token r1 ! p = r_token r ! p \<or> r_token r1 ! p = T_NULL"
    using bd by (auto simp: nth_list_update)
  show ?case
  proof (intro conjI allI impI)
    fix p assume "p < base + i \<or> base + i + Suc k \<le> p"
    then have "p < base + Suc i \<or> base + Suc i + k \<le> p" "p \<noteq> base + i" by auto
    with ih t1 show "r_token r' ! p = r_token r ! p" by metis
  next
    fix p
    from ih have "r_token r' ! p = r_token r1 ! p \<or> r_token r' ! p = T_NULL" by blast
    with t2 [of p] show "r_token r' ! p = r_token r ! p \<or> r_token r' ! p = T_NULL" by auto
  qed
qed

lemma redir_step_grows:
  assumes "redir_step base i r = Inr r1"
  shows "(\<forall>nm f. files (r_world r) nm = Some f \<longrightarrow> files (r_world r1) nm = Some f) \<and>
         (\<exists>es. opened (r_world r1) = opened (r_world r) @ es)"
proof -
  consider (inp) "r_token r ! (base + i) = T_INPUT" | (outp) "r_token r ! (base + i) = T_OUTPUT"
    | (other) "r_token r ! (base + i) \<noteq> T_INPUT" "r_token r ! (base + i) \<noteq> T_OUTPUT"
    by blast
  then show ?thesis
  proof cases
    case inp
    from redir_step_input [OF assms inp] obtain fd0 wa where
      mc: "MaybeClose (r_input r) (r_world r) = Inr (fd0, wa)"
      and op: "Open (r_token r ! (base + i + 1)) O_RDONLY 0 wa = Inr (r_input r1, r_world r1)"
      by blast
    from MaybeClose_Inr [OF mc] Open_Inr [OF op] output_flags(4) show ?thesis by auto
  next
    case outp
    from redir_step_output [OF assms outp] obtain fd0 wa where
      mc: "MaybeClose (r_output r) (r_world r) = Inr (fd0, wa)"
      and op: "Open (r_token r ! (base + i + 1)) (O_WRONLY OR O_CREAT)
             (S_IWUSR OR S_IRUSR OR S_IRGRP OR S_IWGRP OR S_IROTH) wa =
             Inr (r_output r1, r_world r1)"
      by blast
    from MaybeClose_Inr [OF mc] Open_Inr [OF op] output_flags(2) show ?thesis by auto
  next
    case other
    from redir_step_other [OF assms other] show ?thesis by simp
  qed
qed

lemma redir_loop_grows:
  assumes "redir_loop base i k r = Inr r'"
  shows "(\<forall>nm f. files (r_world r) nm = Some f \<longrightarrow> files (r_world r') nm = Some f) \<and>
         (\<exists>es. opened (r_world r') = opened (r_world r) @ es)"
  using assms
proof (induction k arbitrary: i r)
  case 0
  then show ?case by simp
next
  case (Suc k)
  from Suc.prems obtain r1 where st: "redir_step base i r = Inr r1"
    and lp: "redir_loop base (Suc i) k r1 = Inr r'"
    by (auto split: sum.splits)
  from redir_step_grows [OF st] Suc.IH [OF lp] show ?case
    by (metis append.assoc)
qed

lemma valid_fds_Open_input:
  assumes v: "valid_fds inp outp w" and mc: "MaybeClose inp w = Inr (fd0, wa)"
    and op: "Open path flags mode wa = Inr (fd, wb)"
  shows "valid_fds fd outp wb \<and>
         (\<forall>d. map_of (fds w) outp = Some d \<longrightarrow> map_of (fds wb) outp = Some d)"
proof -
  from Open_Inr [OF op] obtain name where
    fd: "fd = lowest_fd (fds wa)"
    and fb: "fds wb = (fd, \<lparr>target = File name, oflags = flags, offset = 0, cloexec = False\<rparr>) # fds wa"
    by blast
  have free: "map_of (fds wa) fd = None" "0 \<le> fd"
    by (simp_all add: fd lowest_fd_free lowest_fd_nonneg)
  have keep: "map_of (fds wa) outp = map_of (fds w) outp" if "0 \<le> outp"
  proof (cases "inp < 0")
    case True
    with MaybeClose_Inr [OF mc] show ?thesis by simp
  next
    case False
    with v that have "inp \<noteq> outp" by (simp add: valid_fds_def)
    with False MaybeClose_Inr [OF mc] show ?thesis by (simp add: map_of_filter_fst)
  qed
  have ne: "fd \<noteq> outp"
  proof (cases "outp < 0")
    case True
    with free show ?thesis by simp
  next
    case False
    with v have "map_of (fds w) outp \<noteq> None" by (simp add: valid_fds_def)
    with keep False free show ?thesis by auto
  qed
  have "\<forall>d. map_of (fds w) outp = Some d \<longrightarrow> map_of (fds wb) outp = Some d"
  proof (intro allI impI)
    fix d assume d: "map_of (fds w) outp = Some d"
    show "map_of (fds wb) outp = Some d"
    proof (cases "outp < 0")
      case True
      with v d ne show ?thesis
        using MaybeClose_Inr [OF mc] 
        by (cases "inp < 0") (auto simp: fb map_of_filter_fst valid_fds_def)
    next
      case False
      with keep d ne show ?thesis by (simp add: fb)
    qed
  qed
  moreover have "valid_fds fd outp wb"
    using v ne free keep by (auto simp: valid_fds_def fb)
  ultimately show ?thesis by blast
qed

lemma valid_fds_Open_output:
  assumes v: "valid_fds inp outp w" and mc: "MaybeClose outp w = Inr (fd0, wa)"
    and op: "Open path flags mode wa = Inr (fd, wb)"
  shows "valid_fds inp fd wb"
proof -
  from Open_Inr [OF op] obtain name where
    fd: "fd = lowest_fd (fds wa)"
    and fb: "fds wb = (fd, \<lparr>target = File name, oflags = flags, offset = 0, cloexec = False\<rparr>) # fds wa"
    by blast
  have free: "map_of (fds wa) fd = None" "0 \<le> fd"
    by (simp_all add: fd lowest_fd_free lowest_fd_nonneg)
  show ?thesis
  proof (cases "inp < 0")
    case True
    then show ?thesis by (simp add: valid_fds_def fb)
  next
    case False
    with v have i: "map_of (fds w) inp \<noteq> None" "inp \<noteq> outp" by (simp_all add: valid_fds_def)
    have "map_of (fds wa) inp = map_of (fds w) inp"
      using MaybeClose_Inr [OF mc] i(2) by (cases "outp < 0") (simp_all add: map_of_filter_fst)
    with i free have "map_of (fds wa) inp \<noteq> None" "inp \<noteq> fd" by auto
    then show ?thesis by (simp add: valid_fds_def fb)
  qed
qed

lemma redir_step_valid:
  assumes "redir_step base i r = Inr r1" and "valid_fds (r_input r) (r_output r) (r_world r)"
  shows "valid_fds (r_input r1) (r_output r1) (r_world r1)"
proof -
  consider (inp) "r_token r ! (base + i) = T_INPUT" | (outp) "r_token r ! (base + i) = T_OUTPUT"
    | (other) "r_token r ! (base + i) \<noteq> T_INPUT" "r_token r ! (base + i) \<noteq> T_OUTPUT"
    by blast
  then show ?thesis
  proof cases
    case inp
    from redir_step_input [OF assms(1) inp] obtain fd0 wa where
      mc: "MaybeClose (r_input r) (r_world r) = Inr (fd0, wa)"
      and op: "Open (r_token r ! (base + i + 1)) O_RDONLY 0 wa = Inr (r_input r1, r_world r1)"
      and o: "r_output r1 = r_output r"
      by blast
    from valid_fds_Open_input [OF assms(2) mc op] o show ?thesis by simp
  next
    case outp
    from redir_step_output [OF assms(1) outp] obtain fd0 wa where
      mc: "MaybeClose (r_output r) (r_world r) = Inr (fd0, wa)"
      and op: "Open (r_token r ! (base + i + 1)) (O_WRONLY OR O_CREAT)
             (S_IWUSR OR S_IRUSR OR S_IRGRP OR S_IWGRP OR S_IROTH) wa =
             Inr (r_output r1, r_world r1)"
      and o: "r_input r1 = r_input r"
      by blast
    from valid_fds_Open_output [OF assms(2) mc op] o show ?thesis by simp
  next
    case other
    from redir_step_other [OF assms(1) other] assms(2) show ?thesis by simp
  qed
qed

lemma redir_loop_valid:
  assumes "redir_loop base i k r = Inr r'" and "valid_fds (r_input r) (r_output r) (r_world r)"
  shows "valid_fds (r_input r') (r_output r') (r_world r')"
  using assms
proof (induction k arbitrary: i r)
  case 0
  then show ?case by simp
next
  case (Suc k)
  from Suc.prems(1) obtain r1 where st: "redir_step base i r = Inr r1"
    and lp: "redir_loop base (Suc i) k r1 = Inr r'"
    by (auto split: sum.splits)
  from Suc.IH [OF lp redir_step_valid [OF st Suc.prems(2)]] show ?case .
qed

lemma redir_loop_keeps_output:
  assumes "redir_loop base i k r = Inr r'"
    and "valid_fds (r_input r) (r_output r) (r_world r)"
    and "map_of (fds (r_world r)) (r_output r) = Some d"
    and "\<forall>j. i \<le> j \<and> j < i + k \<longrightarrow> r_token r ! (base + j) \<noteq> T_OUTPUT"
  shows "r_output r' = r_output r \<and> map_of (fds (r_world r')) (r_output r) = Some d"
  using assms
proof (induction k arbitrary: i r)
  case 0
  then show ?case by simp
next
  case (Suc k)
  from Suc.prems(1) obtain r1 where st: "redir_step base i r = Inr r1"
    and lp: "redir_loop base (Suc i) k r1 = Inr r'"
    by (auto split: sum.splits)
  from Suc.prems(4) have no: "r_token r ! (base + i) \<noteq> T_OUTPUT" by simp
  have keep: "r_output r1 = r_output r \<and> map_of (fds (r_world r1)) (r_output r) = Some d"
  proof (cases "r_token r ! (base + i) = T_INPUT")
    case True
    from redir_step_input [OF st True] obtain fd0 wa where
      mc: "MaybeClose (r_input r) (r_world r) = Inr (fd0, wa)"
      and op: "Open (r_token r ! (base + i + 1)) O_RDONLY 0 wa = Inr (r_input r1, r_world r1)"
      and o: "r_output r1 = r_output r"
      by blast
    from valid_fds_Open_input [OF Suc.prems(2) mc op] Suc.prems(3) o show ?thesis by simp
  next
    case False
    from redir_step_other [OF st False no] Suc.prems(3) show ?thesis by simp
  qed
  have v1: "valid_fds (r_input r1) (r_output r1) (r_world r1)"
    by (rule redir_step_valid [OF st Suc.prems(2)])
  have d1: "map_of (fds (r_world r1)) (r_output r1) = Some d" using keep by simp
  have no1: "\<forall>j. Suc i \<le> j \<and> j < Suc i + k \<longrightarrow> r_token r1 ! (base + j) \<noteq> T_OUTPUT"
  proof (intro allI impI)
    fix j assume j: "Suc i \<le> j \<and> j < Suc i + k"
    with Suc.prems(4) have "r_token r ! (base + j) \<noteq> T_OUTPUT" by simp
    moreover from redir_step_length [OF st] redir_step_tokens [OF st]
    have "r_token r1 ! (base + j) = r_token r ! (base + j) \<or> r_token r1 ! (base + j) = T_NULL"
      by (auto simp: nth_list_update)
    ultimately show "r_token r1 ! (base + j) \<noteq> T_OUTPUT" by auto
  qed
  from Suc.IH [OF lp v1 d1 no1] keep show ?case by simp
qed

lemma write_at_start: "write_at 0 bs old = bs @ drop (length bs) old"
  by (simp add: write_at_def)

text \<open>
  Claim C10. When \<open>do_redir\<close> returns and token \<open>i\<close> was an output redirection, the
  next token is a file name and the file was opened with the flags
  \<^verbatim>\<open>O_WRONLY | O_CREAT\<close> and mode 0664 (436): write-only, without \<^verbatim>\<open>O_TRUNC\<close> and
  without \<^verbatim>\<open>O_APPEND\<close>. No file that existed has changed. When it was the last output
  redirection and the descriptors passed in were valid, the output descriptor returned is
  open on that file at offset 0, and a command that writes \<open>bs\<close> through it to a file
  that existed leaves the old bytes beyond \<open>length bs\<close> in place.
\<close>

theorem do_redir_output_not_truncated:
  assumes "do_redir toks base ntokens inp outp w = Inr (n, toks', inp', outp', w')"
    and "i < nat ntokens" and "toks ! (base + i) = T_OUTPUT"
  shows "\<exists>name. toks ! (base + i + 1) = Word name \<and>
           (name, O_WRONLY OR O_CREAT, 436) \<in> set (drop (length (opened w)) (opened w')) \<and>
           (O_WRONLY OR O_CREAT) AND O_ACCMODE = O_WRONLY \<and>
           (O_WRONLY OR O_CREAT) AND O_TRUNC = 0 \<and>
           (O_WRONLY OR O_CREAT) AND O_APPEND = 0 \<and>
           (\<forall>nm f. files w nm = Some f \<longrightarrow> files w' nm = Some f) \<and>
           (valid_fds inp outp w \<and>
            (\<forall>j. i < j \<and> j < nat ntokens \<longrightarrow> toks ! (base + j) \<noteq> T_OUTPUT) \<longrightarrow>
              map_of (fds w') outp' =
                Some \<lparr>target = File name, oflags = O_WRONLY OR O_CREAT, offset = 0,
                      cloexec = False\<rparr> \<and>
              (\<forall>f bs. files w name = Some f \<longrightarrow>
                 (\<exists>w''. sys_write outp' bs w' = Inr w'' \<and>
                    files w'' name = Some (f\<lparr>fdata := bs @ drop (length bs) (fdata f)\<rparr>))))"
proof -
  let ?r0 = "\<lparr>r_token = toks, r_mode = T_NULL, r_n = 0, r_input = inp, r_output = outp,
              r_world = w\<rparr>"
  let ?fl = "O_WRONLY OR O_CREAT"
  define K where "K = nat ntokens"
  from assms(1) obtain r where lp: "redir_loop base 0 K ?r0 = Inr r"
    and w': "w' = r_world r" and outp': "outp' = r_output r"
    by (auto simp: do_redir_def K_def split: sum.splits if_splits)
  from assms(2) have "i < K" by (simp add: K_def)
  from less_imp_Suc_add [OF this] obtain k2 where "K = Suc (i + k2)" ..
  then have k2: "K = i + Suc k2" by simp
  from lp obtain r1 where l1: "redir_loop base 0 i ?r0 = Inr r1"
    and l2: "redir_loop base i (Suc k2) r1 = Inr r"
    unfolding k2 redir_loop_add by (auto split: sum.splits)
  from l2 obtain r2 where st: "redir_step base i r1 = Inr r2"
    and l3: "redir_loop base (Suc i) k2 r2 = Inr r"
    by (auto split: sum.splits)
  from redir_loop_tokens [OF l1]
  have tk1: "\<And>p. base + i \<le> p \<Longrightarrow> r_token r1 ! p = toks ! p" by simp
  have out1: "r_token r1 ! (base + i) = T_OUTPUT" using tk1 [of "base + i"] assms(3) by simp
  from redir_step_output [OF st out1] obtain fd0 wa where
    mc: "MaybeClose (r_output r1) (r_world r1) = Inr (fd0, wa)"
    and op: "Open (toks ! (base + i + 1)) ?fl
             (S_IWUSR OR S_IRUSR OR S_IRGRP OR S_IWGRP OR S_IROTH) wa =
             Inr (r_output r2, r_world r2)"
    and in2: "r_input r2 = r_input r1" and tk2: "r_token r2 = r_token r1"
    using tk1 [of "base + i + 1"] by auto
  from Open_Inr [OF op] obtain name where nm: "toks ! (base + i + 1) = Word name"
    and fd2: "fds (r_world r2) =
        (r_output r2, \<lparr>target = File name, oflags = ?fl, offset = 0, cloexec = False\<rparr>) # fds wa"
    and op2: "opened (r_world r2) = opened wa @ [(name, ?fl, 436)]"
    by (auto simp: output_flags(5))
  from redir_loop_grows [OF l1] obtain es1 where
    f1: "\<forall>nm f. files w nm = Some f \<longrightarrow> files (r_world r1) nm = Some f"
    and o1: "opened (r_world r1) = opened w @ es1"
    by auto
  from redir_step_grows [OF st]
  have f2: "\<forall>nm f. files (r_world r1) nm = Some f \<longrightarrow> files (r_world r2) nm = Some f"
    by blast
  from redir_loop_grows [OF l3] obtain es3 where
    f3: "\<forall>nm f. files (r_world r2) nm = Some f \<longrightarrow> files (r_world r) nm = Some f"
    and o3: "opened (r_world r) = opened (r_world r2) @ es3"
    by auto
  have oa: "opened wa = opened (r_world r1)" using MaybeClose_Inr [OF mc] by simp
  have "opened w' = opened w @ es1 @ [(name, ?fl, 436)] @ es3"
    by (simp add: w' o3 op2 oa o1)
  then have mem: "(name, ?fl, 436) \<in> set (drop (length (opened w)) (opened w'))"
    by simp
  have files: "\<forall>nm f. files w nm = Some f \<longrightarrow> files w' nm = Some f"
    using f1 f2 f3 by (simp add: w')
  have last: "map_of (fds w') outp' =
                Some \<lparr>target = File name, oflags = ?fl, offset = 0, cloexec = False\<rparr> \<and>
              (\<forall>f bs. files w name = Some f \<longrightarrow>
                 (\<exists>w''. sys_write outp' bs w' = Inr w'' \<and>
                    files w'' name = Some (f\<lparr>fdata := bs @ drop (length bs) (fdata f)\<rparr>)))"
    if v: "valid_fds inp outp w"
      and no: "\<forall>j. i < j \<and> j < nat ntokens \<longrightarrow> toks ! (base + j) \<noteq> T_OUTPUT"
  proof -
    let ?d = "\<lparr>target = File name, oflags = ?fl, offset = 0, cloexec = False\<rparr>"
    have v1: "valid_fds (r_input r1) (r_output r1) (r_world r1)"
      using redir_loop_valid [OF l1] v by simp
    have v2: "valid_fds (r_input r2) (r_output r2) (r_world r2)"
      by (rule redir_step_valid [OF st v1])
    have d2: "map_of (fds (r_world r2)) (r_output r2) = Some ?d" by (simp add: fd2)
    have no2: "\<forall>j. Suc i \<le> j \<and> j < Suc i + k2 \<longrightarrow> r_token r2 ! (base + j) \<noteq> T_OUTPUT"
    proof (intro allI impI)
      fix j assume j: "Suc i \<le> j \<and> j < Suc i + k2"
      then have "i < j \<and> j < nat ntokens" using k2 by (simp add: K_def [symmetric])
      with no have "toks ! (base + j) \<noteq> T_OUTPUT" by blast
      moreover have "r_token r2 ! (base + j) = toks ! (base + j)"
        using tk1 [of "base + j"] j by (simp add: tk2)
      ultimately show "r_token r2 ! (base + j) \<noteq> T_OUTPUT" by simp
    qed
    from redir_loop_keeps_output [OF l3 v2 d2 no2]
    have d: "map_of (fds w') outp' = Some ?d" by (simp add: w' outp')
    have "\<exists>w''. sys_write outp' bs w' = Inr w'' \<and>
            files w'' name = Some (f\<lparr>fdata := bs @ drop (length bs) (fdata f)\<rparr>)"
      if f: "files w name = Some f" for f bs
    proof -
      from files f have "files w' name = Some f" by blast
      moreover have "?fl AND O_ACCMODE \<noteq> O_RDONLY" by (simp add: open_defs)
      ultimately show ?thesis using d
        by (simp add: sys_write_def output_flags(3) write_at_start Let_def)
    qed
    with d show ?thesis by blast
  qed
  from nm mem files last output_flags(1-3) show ?thesis by blast
qed

theorem do_redir_output_not_truncated_witness:
  "do_redir ls_tokens 0 5 (-1) (-1) term_world =
     Inr (2, [Word ''ls'', Word ''-l'', T_NULL, T_NULL, T_NULL, T_NULL], -1, 4, ls_world) \<and>
   ls_tokens ! (0 + 2) = T_OUTPUT \<and>
   opened ls_world = [(''out.txt'', O_WRONLY OR O_CREAT, 436)] \<and>
   files ls_world ''out.txt'' = Some \<lparr>fmode = 420, fdata = ''0123456789''\<rparr> \<and>
   map_sum id (\<lambda>w. files w ''out.txt'') (sys_write 4 ''AB'' ls_world) =
     Inr (Some \<lparr>fmode = 420, fdata = ''AB23456789''\<rparr>)"
proof -
  have h: "2 < nat 5" "ls_tokens ! (0 + 2) = T_OUTPUT"
    by (simp_all add: ls_tokens_def)
  show ?thesis
    using do_redir_ls h do_redir_output_not_truncated [OF do_redir_ls h]
    by (simp add: shell_defs ls_world_def term_world_def tty_def Let_def)
qed

subsection \<open>Pipelines\<close>

lemma stages_nonempty: "stages ts \<noteq> []"
  by (induction ts) auto

lemma flat_stages: "flat (stages ts) = ts"
proof (induction ts)
  case Nil
  then show ?case by simp
next
  case (Cons t ts)
  obtain s ss where st: "stages ts = s # ss"
    using stages_nonempty [of ts] by (cases "stages ts") auto
  show ?case
  proof (cases "t = T_PIPE")
    case True
    with Cons st show ?thesis by simp
  next
    case False
    with Cons st show ?thesis by (cases ss) auto
  qed
qed

lemma stages_no_pipe: "\<forall>s \<in> set (stages ts). T_PIPE \<notin> set s"
proof (induction ts)
  case Nil
  then show ?case by simp
next
  case (Cons t ts)
  obtain s ss where st: "stages ts = s # ss"
    using stages_nonempty [of ts] by (cases "stages ts") auto
  with Cons show ?case by auto
qed

lemma flat_length_pos: "ss \<noteq> [] \<Longrightarrow> \<forall>s \<in> set ss. s \<noteq> [] \<Longrightarrow> 0 < length (flat ss)"
  by (induction ss rule: flat.induct) auto

lemma next_pipe_none:
  assumes "\<forall>j < k. base + i + j < length toks \<and> toks ! (base + i + j) \<noteq> T_PIPE"
  shows "next_pipe toks base n i k len = Inr (if k = 0 then len else n, False)"
  using assms
proof (induction k arbitrary: i len)
  case 0
  then show ?case by simp
next
  case (Suc k)
  from Suc.prems have h: "base + i < length toks" "toks ! (base + i) \<noteq> T_PIPE" by force+
  have "\<forall>j < k. base + Suc i + j < length toks \<and> toks ! (base + Suc i + j) \<noteq> T_PIPE"
    using Suc.prems by (metis Suc_less_eq add_Suc_right add_Suc_shift)
  from Suc.IH [OF this, of n] h show ?case by simp
qed

lemma next_pipe_found:
  assumes "q < k" and "base + i + q < length toks" and "toks ! (base + i + q) = T_PIPE"
    and "\<forall>j < q. toks ! (base + i + j) \<noteq> T_PIPE"
  shows "next_pipe toks base n i k len = Inr (i + q, True)"
  using assms
proof (induction k arbitrary: i q len)
  case 0
  then show ?case by simp
next
  case (Suc k)
  show ?case
  proof (cases q)
    case 0
    with Suc.prems show ?thesis by simp
  next
    case (Suc q')
    with Suc.prems have h: "base + i < length toks" "toks ! (base + i) \<noteq> T_PIPE" by force+
    have a: "q' < k" "base + Suc i + q' < length toks" "toks ! (base + Suc i + q') = T_PIPE"
      using Suc.prems Suc by simp_all
    have b: "\<forall>j < q'. toks ! (base + Suc i + j) \<noteq> T_PIPE"
      using Suc.prems(4) Suc by (metis Suc_less_eq add_Suc_right add_Suc_shift)
    from Suc.IH [OF a b, of n] h Suc show ?thesis by simp
  qed
qed

lemma first_pipe_none:
  assumes "\<forall>j < k. base + i + j < length toks \<and> toks ! (base + i + j) \<noteq> T_PIPE"
  shows "first_pipe toks base i k = Inr 0"
  using assms
proof (induction k arbitrary: i)
  case 0
  then show ?case by simp
next
  case (Suc k)
  from Suc.prems have h: "base + i < length toks" "toks ! (base + i) \<noteq> T_PIPE" by force+
  have "\<forall>j < k. base + Suc i + j < length toks \<and> toks ! (base + Suc i + j) \<noteq> T_PIPE"
    using Suc.prems by (metis Suc_less_eq add_Suc_right add_Suc_shift)
  from Suc.IH [OF this] h show ?case by simp
qed

lemma first_pipe_found:
  assumes "q < k" and "base + i + q < length toks" and "toks ! (base + i + q) = T_PIPE"
    and "\<forall>j < q. toks ! (base + i + j) \<noteq> T_PIPE"
  shows "first_pipe toks base i k = Inr (i + q)"
  using assms
proof (induction k arbitrary: i q)
  case 0
  then show ?case by simp
next
  case (Suc k)
  show ?case
  proof (cases q)
    case 0
    with Suc.prems show ?thesis by simp
  next
    case (Suc q')
    with Suc.prems have h: "base + i < length toks" "toks ! (base + i) \<noteq> T_PIPE" by force+
    have a: "q' < k" "base + Suc i + q' < length toks" "toks ! (base + Suc i + q') = T_PIPE"
      using Suc.prems Suc by simp_all
    have b: "\<forall>j < q'. toks ! (base + Suc i + j) \<noteq> T_PIPE"
      using Suc.prems(4) Suc by (metis Suc_less_eq add_Suc_right add_Suc_shift)
    from Suc.IH [OF a b] h Suc show ?thesis by simp
  qed
qed

lemma redir_step_count:
  assumes "redir_step base i r = Inr r1" and "0 \<le> r_n r" and "r_n r \<le> int i"
  shows "0 \<le> r_n r1 \<and> r_n r1 \<le> int (Suc i)"
  using assms
  by (auto simp: redir_step_def split: if_splits sum.splits prod.splits)

lemma redir_loop_count:
  assumes "redir_loop base i k r = Inr r'" and "0 \<le> r_n r" and "r_n r \<le> int i"
  shows "0 \<le> r_n r' \<and> r_n r' \<le> int (i + k)"
  using assms
proof (induction k arbitrary: i r)
  case 0
  then show ?case by simp
next
  case (Suc k)
  from Suc.prems(1) obtain r1 where st: "redir_step base i r = Inr r1"
    and lp: "redir_loop base (Suc i) k r1 = Inr r'"
    by (auto split: sum.splits)
  from redir_step_count [OF st Suc.prems(2,3)] Suc.IH [OF lp] show ?case by simp
qed

lemma do_redir_frame:
  assumes "do_redir toks base ntokens inp outp w = Inr (n, toks', inp', outp', w')"
  shows "length toks' = length toks \<and> 0 \<le> n \<and> n \<le> max 0 ntokens \<and>
         (\<forall>p. p < base \<or> base + nat ntokens < p \<longrightarrow> toks' ! p = toks ! p)"
proof -
  let ?r0 = "\<lparr>r_token = toks, r_mode = T_NULL, r_n = 0, r_input = inp, r_output = outp,
              r_world = w\<rparr>"
  from assms obtain r where lp: "redir_loop base 0 (nat ntokens) ?r0 = Inr r"
    and n: "n = r_n r" and toks': "toks' = (r_token r)[base + nat (r_n r) := T_NULL]"
    by (auto simp: do_redir_def split: sum.splits if_splits)
  have "0 \<le> r_n r \<and> r_n r \<le> int (0 + nat ntokens)"
    by (rule redir_loop_count [OF lp]) simp_all
  then have nb: "0 \<le> n" "nat n \<le> nat ntokens" unfolding n by linarith+
  from redir_loop_length [OF lp] have len: "length (r_token r) = length toks" by simp
  from redir_loop_tokens [OF lp]
  have out: "\<forall>p. p < base \<or> base + nat ntokens \<le> p \<longrightarrow> r_token r ! p = toks ! p" by simp
  have "\<forall>p. p < base \<or> base + nat ntokens < p \<longrightarrow> toks' ! p = toks ! p"
  proof (intro allI impI)
    fix p assume p: "p < base \<or> base + nat ntokens < p"
    then have "p \<noteq> base + nat (r_n r)" using nb n by auto
    then have "toks' ! p = r_token r ! p" by (simp add: toks')
    with out p show "toks' ! p = toks ! p" by auto
  qed
  with nb len show ?thesis by (auto simp: toks')
qed

lemma argv_strings_words:
  "argv_strings xs = Inr as \<Longrightarrow> map Word as = takeWhile (\<lambda>t. t \<noteq> T_NULL) xs"
  by (induction xs arbitrary: as rule: argv_strings.induct) (auto split: sum.splits)

lemma words_of_map_Word: "words_of (map Word as) = as"
  by (induction as) simp_all

lemma words_of_takeWhile:
  assumes "\<And>a. P (Word a)"
  shows "words_of (takeWhile P xs) = words_of xs"
  using assms by (induction xs rule: words_of.induct) simp_all

lemma mkcommand_rest_Some:
  "mkcommand_rest (Some c) as = Some (c @ concat (map (\<lambda>x. '' '' @ x) as))"
  by (induction as arbitrary: c) (simp_all add: strapp_def)

lemma append_space: "(\<lambda>x. '' '' @ x) = (#) CHR '' ''"
  by (rule ext) simp

text \<open>
  The text \<open>mkcommand\<close> leaves: the old one and the separator, if there was one, and
  the strings of the vector with a space between neighbours.
\<close>

lemma mkcommand_Inr:
  assumes "mkcommand cmd argv = Inr c"
  shows "c = Some ((case cmd of None \<Rightarrow> [] | Some c0 \<Rightarrow> c0 @ '' | '') @ unwords argv)"
  using assms
  by (cases argv; cases cmd) (auto simp: mkcommand_def strapp_def mkcommand_rest_Some append_space)

text \<open>The vector a stage leaves for \<open>addproc\<close> holds the leading strings of the
  stage.\<close>

lemma do_redir_argv:
  assumes dr: "do_redir toks base ntokens inp outp w = Inr (n, toks', inp', outp', w')"
    and av: "argv_strings (drop base toks') = Inr as"
  shows "as = words_of (take (nat ntokens) (drop base toks))"
proof -
  let ?st = "take (nat ntokens) (drop base toks)"
  let ?pre = "takeWhile (\<lambda>t. \<not> is_redir t) ?st"
  from do_redir_prefix [OF dr]
  have "takeWhile (\<lambda>t. t \<noteq> T_NULL) (drop base toks') = takeWhile (\<lambda>t. t \<noteq> T_NULL) ?pre"
    by (simp add: Let_def)
  with argv_strings_words [OF av]
  have "map Word as = takeWhile (\<lambda>t. t \<noteq> T_NULL) ?pre" by simp
  then have "words_of (map Word as) = words_of (takeWhile (\<lambda>t. t \<noteq> T_NULL) ?pre)" by simp
  also have "\<dots> = words_of ?pre" by (rule words_of_takeWhile) simp
  also have "\<dots> = words_of ?st" by (rule words_of_takeWhile) (simp add: is_redir_def)
  finally show ?thesis by (simp add: words_of_map_Word)
qed

lemma do_stage_Inr:
  assumes "do_stage pg inp outp toks base ntokens w forks = Inr (pd, toks1, w1, forks1)"
  shows "forks = pd # forks1 \<and> 0 < pd \<and> 0 < ntokens \<and> length toks1 = length toks \<and>
         (\<forall>p. p < base \<or> base + nat ntokens < p \<longrightarrow> toks1 ! p = toks ! p) \<and>
         (\<forall>as. argv_strings (drop base toks1) = Inr as \<longrightarrow>
            as = words_of (take (nat ntokens) (drop base toks)))"
proof -
  from assms obtain n inp' outp' where
    dr: "do_redir toks base ntokens inp outp w = Inr (n, toks1, inp', outp', w1)"
    and n: "n \<noteq> 0" and fk: "Fork forks = Inr (pd, forks1)"
    by (auto simp: do_stage_def split: sum.splits if_splits prod.splits)
  from fk have "forks = pd # forks1 \<and> 0 < pd"
    by (auto simp: Fork_def split: list.splits if_splits)
  moreover from do_redir_frame [OF dr] n have "0 < ntokens" by auto
  moreover have "\<forall>as. argv_strings (drop base toks1) = Inr as \<longrightarrow>
            as = words_of (take (nat ntokens) (drop base toks))"
    using do_redir_argv [OF dr] by blast
  ultimately show ?thesis using do_redir_frame [OF dr] by simp
qed

lemma addproc_Inr:
  assumes "addproc j pd argv s = Inr s1"
  shows "0 \<le> j \<and> j < njobmax s \<and>
         s1 = s\<lparr>jobs := (jobs s)[nat j :=
            (jobs s ! nat j)\<lparr>proc := proc (jobs s ! nat j) @ [new_proc pd],
              command := Some ((case command (jobs s ! nat j) of None \<Rightarrow> []
                                | Some c0 \<Rightarrow> c0 @ '' | '') @ unwords argv)\<rparr>]\<rparr>"
proof -
  let ?job1 = "(jobs s ! nat j)\<lparr>proc := proc (jobs s ! nat j) @
      [\<lparr>pid = pd, pstate = RUNNING, pexitcode = -1\<rparr>]\<rparr>"
  from assms obtain c where j: "0 \<le> j" "j < njobmax s"
    and mk: "mkcommand (command ?job1) argv = Inr c"
    and s1: "s1 = s\<lparr>jobs := (jobs s)[nat j := ?job1\<lparr>command := c\<rparr>]\<rparr>"
    by (auto simp: addproc_def Let_def split: if_splits sum.splits)
  from mkcommand_Inr [OF mk] have "c = Some ((case command (jobs s ! nat j) of None \<Rightarrow> []
                                | Some c0 \<Rightarrow> c0 @ '' | '') @ unwords argv)" by simp
  with j s1 show ?thesis by (simp add: new_proc_def)
qed

lemma addproc_token_Inr:
  assumes "addproc_token j pd toks base s = Inr s1"
  shows "0 \<le> j \<and> j < njobmax s \<and>
         (\<exists>as. argv_strings (drop base toks) = Inr as \<and>
            s1 = s\<lparr>jobs := (jobs s)[nat j :=
              (jobs s ! nat j)\<lparr>proc := proc (jobs s ! nat j) @ [new_proc pd],
                command := Some ((case command (jobs s ! nat j) of None \<Rightarrow> []
                                  | Some c0 \<Rightarrow> c0 @ '' | '') @ unwords as)\<rparr>]\<rparr>)"
  using assms addproc_Inr
  by (auto simp: addproc_token_def split: sum.splits if_splits)

lemma addjob_Inr:
  assumes "addjob pg bg s = Inr (j, s0)"
  shows "j = (if bg then fst (allocjob s) else FG) \<and> 0 \<le> j \<and> j < njobmax s0 \<and>
         jobs s0 ! nat j = \<lparr>pgid = pg, proc = [], tmodes = shell_tmodes s, state = RUNNING,
                              command = None\<rparr> \<and>
         (\<forall>i. i < length (jobs s) \<and> i \<noteq> nat j \<longrightarrow> jobs s0 ! i = jobs s ! i)"
proof -
  obtain j1 s1 where al: "(if bg then allocjob s else (FG, s)) = (j1, s1)"
    by (cases "if bg then allocjob s else (FG, s)") auto
  have s1: "shell_tmodes s1 = shell_tmodes s"
    "jobs s1 = jobs s \<or> jobs s1 = jobs s @ [zero_job]"
    using al by (auto simp: allocjob_def split: if_splits option.splits)
  from assms al have j: "j = j1" "0 \<le> j" "j < njobmax s1"
    and s0: "s0 = s1\<lparr>jobs := (jobs s1)[nat j :=
               (jobs s1 ! nat j)\<lparr>pgid := pg, state := RUNNING, command := None,
                                  proc := [], tmodes := shell_tmodes s1\<rparr>]\<rparr>"
    by (auto simp: addjob_def split: if_splits)
  have jl: "nat j < length (jobs s1)" using j by (simp add: njobmax_def)
  have a: "j = (if bg then fst (allocjob s) else FG)"
    using al j(1) by (auto split: if_splits)
  have b: "jobs s0 ! nat j = \<lparr>pgid = pg, proc = [], tmodes = shell_tmodes s, state = RUNNING,
                              command = None\<rparr>"
    using jl by (simp add: s0 s1(1))
  have c: "\<forall>i. i < length (jobs s) \<and> i \<noteq> nat j \<longrightarrow> jobs s0 ! i = jobs s ! i"
    using s1(2) by (auto simp: s0 nth_append)
  have d: "j < njobmax s0" using j(3) by (simp add: s0 njobmax_def)
  from a b c d j(2) show ?thesis by blast
qed

lemma stage_iter_stage:
  assumes it: "stage_iter p = Inr p1"
    and view: "take (nat (p_ntokens p)) (drop (p_base p) (p_token p)) = s @ rest"
    and nt: "p_ntokens p = int (length (s @ rest))"
    and bd: "p_base p + length (s @ rest) \<le> length (p_token p)"
    and s: "s \<noteq> []" "T_PIPE \<notin> set s"
    and rest: "rest = [] \<or> (\<exists>r. rest = T_PIPE # r)"
  shows "p_length p1 = length s \<and> p_ntokens p1 = p_ntokens p - (int (length s) + 1) \<and>
         p_base p1 = p_base p \<and> p_job p1 = p_job p \<and>
         length (p_token p1) = length (p_token p) \<and>
         (\<forall>q. p_base p + length s < q \<longrightarrow> p_token p1 ! q = p_token p ! q) \<and>
         0 \<le> p_job p \<and> p_job p < njobmax (p_shell p) \<and>
         (\<exists>pd. p_forks p = pd # p_forks p1 \<and>
            p_shell p1 = (p_shell p)\<lparr>jobs := (jobs (p_shell p))[nat (p_job p) :=
              (jobs (p_shell p) ! nat (p_job p))
                \<lparr>proc := proc (jobs (p_shell p) ! nat (p_job p)) @ [new_proc pd],
                 command := Some ((case command (jobs (p_shell p) ! nat (p_job p)) of
                                     None \<Rightarrow> [] | Some c0 \<Rightarrow> c0 @ '' | '') @
                                  stage_label s)\<rparr>]\<rparr>)"
proof -
  let ?K = "nat (p_ntokens p)"
  have K: "?K = length (s @ rest)" using nt by simp
  have nth: "\<And>j. j < ?K \<Longrightarrow> p_token p ! (p_base p + j) = (s @ rest) ! j"
  proof -
    fix j assume j: "j < ?K"
    have "(s @ rest) ! j = take ?K (drop (p_base p) (p_token p)) ! j" by (simp only: view)
    also have "\<dots> = p_token p ! (p_base p + j)" using j bd K by simp
    finally show "p_token p ! (p_base p + j) = (s @ rest) ! j" by simp
  qed
  have inb: "\<And>j. j < ?K \<Longrightarrow> p_base p + j < length (p_token p)" using bd K by simp
  have sreg: "\<And>j. j < length s \<Longrightarrow> p_token p ! (p_base p + j) \<noteq> T_PIPE"
  proof -
    fix j assume j: "j < length s"
    then have "p_token p ! (p_base p + j) = s ! j" using nth [of j] K by (simp add: nth_append)
    with s(2) j show "p_token p ! (p_base p + j) \<noteq> T_PIPE" by (metis nth_mem)
  qed
  have scan: "\<exists>found. next_pipe (p_token p) (p_base p) ?K 0 ?K (p_length p) =
      Inr (length s, found)"
  proof (cases "rest = []")
    case True
    then have Ks: "?K = length s" using K by simp
    have "\<forall>j < ?K. p_base p + 0 + j < length (p_token p) \<and>
        p_token p ! (p_base p + 0 + j) \<noteq> T_PIPE"
      using inb sreg Ks by simp
    from next_pipe_none [OF this, of ?K "p_length p"] s(1) Ks show ?thesis by auto
  next
    case False
    with rest obtain r where r: "rest = T_PIPE # r" by blast
    have q: "length s < ?K" using K r by simp
    have "p_token p ! (p_base p + length s) = T_PIPE" using nth [OF q] r by simp
    then have a: "p_token p ! (p_base p + 0 + length s) = T_PIPE" by simp
    have b: "p_base p + 0 + length s < length (p_token p)" using inb [OF q] by simp
    have c: "\<forall>j < length s. p_token p ! (p_base p + 0 + j) \<noteq> T_PIPE" using sreg by simp
    from next_pipe_found [OF q b a c, of ?K "p_length p"] show ?thesis by auto
  qed
  then obtain found where sc: "next_pipe (p_token p) (p_base p) ?K 0 ?K (p_length p) =
      Inr (length s, found)" by blast
  have nn: "\<not> p_ntokens p < 0" using nt by simp
  obtain ni ou w1 where mk: "(if found then mkpipe (p_world p)
            else (p_next_input p, p_output p, p_world p)) = (ni, ou, w1)"
    by (metis prod_cases3)
  from it nn sc mk obtain pd toks1 w2 forks1 s1 where
    ds: "do_stage (p_pgid p) (p_input p) ou (p_token p) (p_base p) (int (length s)) w1
           (p_forks p) = Inr (pd, toks1, w2, forks1)"
    and ap: "addproc_token (p_job p) pd toks1 (p_base p) (p_shell p) = Inr s1"
    and tk: "p_token p1 = toks1" and fk: "p_forks p1 = forks1" and sh: "p_shell p1 = s1"
    and ln: "p_length p1 = length s"
    and n1: "p_ntokens p1 = p_ntokens p - (int (length s) + 1)"
    and bs: "p_base p1 = p_base p" and jb: "p_job p1 = p_job p"
    by (auto simp: stage_iter_def split: sum.splits prod.splits)
  from do_stage_Inr [OF ds]
  have d: "p_forks p = pd # forks1" "length toks1 = length (p_token p)"
    "\<forall>q. p_base p + length s < q \<longrightarrow> toks1 ! q = p_token p ! q"
    and av: "\<forall>as. argv_strings (drop (p_base p) toks1) = Inr as \<longrightarrow>
               as = words_of (take (length s) (drop (p_base p) (p_token p)))"
    by simp_all
  have "take (length s) (drop (p_base p) (p_token p)) =
        take (length s) (take ?K (drop (p_base p) (p_token p)))"
    using K by simp
  also have "\<dots> = s" by (simp only: view) simp
  finally have ts: "take (length s) (drop (p_base p) (p_token p)) = s" .
  from addproc_token_Inr [OF ap] obtain as where
    j: "0 \<le> p_job p" "p_job p < njobmax (p_shell p)"
    and as: "argv_strings (drop (p_base p) toks1) = Inr as"
    and s1': "s1 = (p_shell p)\<lparr>jobs := (jobs (p_shell p))[nat (p_job p) :=
              (jobs (p_shell p) ! nat (p_job p))
                \<lparr>proc := proc (jobs (p_shell p) ! nat (p_job p)) @ [new_proc pd],
                 command := Some ((case command (jobs (p_shell p) ! nat (p_job p)) of
                                     None \<Rightarrow> [] | Some c0 \<Rightarrow> c0 @ '' | '') @
                                  unwords as)\<rparr>]\<rparr>"
    by blast
  from av as ts have "unwords as = stage_label s" by (simp add: stage_label_def)
  with s1' have s1: "s1 = (p_shell p)\<lparr>jobs := (jobs (p_shell p))[nat (p_job p) :=
              (jobs (p_shell p) ! nat (p_job p))
                \<lparr>proc := proc (jobs (p_shell p) ! nat (p_job p)) @ [new_proc pd],
                 command := Some ((case command (jobs (p_shell p) ! nat (p_job p)) of
                                     None \<Rightarrow> [] | Some c0 \<Rightarrow> c0 @ '' | '') @
                                  stage_label s)\<rparr>]\<rparr>"
    by simp
  show ?thesis
    using ln n1 bs jb d j s1 by (auto simp: tk fk sh)
qed

lemma pipeline_loop_stages:
  assumes "pipeline_loop p = Inr p'"
    and "take (nat (p_ntokens p)) (drop (p_base p) (p_token p)) = flat ss"
    and "p_ntokens p = int (length (flat ss))"
    and "p_base p + length (flat ss) \<le> length (p_token p)"
    and "ss \<noteq> []" and "\<forall>s \<in> set ss. s \<noteq> [] \<and> T_PIPE \<notin> set s"
    and "command (jobs (p_shell p) ! nat (p_job p)) = Some c0"
  shows "p_job p' = p_job p \<and> 0 \<le> p_job p \<and> p_job p < njobmax (p_shell p) \<and>
         length ss \<le> length (p_forks p) \<and>
         p_shell p' = (p_shell p)\<lparr>jobs := (jobs (p_shell p))[nat (p_job p) :=
              (jobs (p_shell p) ! nat (p_job p))
                \<lparr>proc := proc (jobs (p_shell p) ! nat (p_job p)) @
                          map new_proc (take (length ss) (p_forks p)),
                 command := Some (c0 @ concat (map (\<lambda>st. '' | '' @ stage_label st) ss))\<rparr>]\<rparr>"
  using assms
proof (induction ss arbitrary: p c0 rule: flat.induct)
  case 1
  then show ?case by simp
next
  case (2 s)
  from "2.prems"(1) obtain p1 where it: "stage_iter p = Inr p1"
    by (subst (asm) pipeline_loop.simps) (auto split: sum.splits)
  have st: "s \<noteq> []" "T_PIPE \<notin> set s" using "2.prems"(6) by simp_all
  from stage_iter_stage [OF it, of s "[]"] "2.prems"(2,3,4,7) st
  have a: "p_ntokens p1 = p_ntokens p - (int (length s) + 1)" "p_job p1 = p_job p"
    "0 \<le> p_job p" "p_job p < njobmax (p_shell p)"
    and b: "\<exists>pd. p_forks p = pd # p_forks p1 \<and>
            p_shell p1 = (p_shell p)\<lparr>jobs := (jobs (p_shell p))[nat (p_job p) :=
              (jobs (p_shell p) ! nat (p_job p))
                \<lparr>proc := proc (jobs (p_shell p) ! nat (p_job p)) @ [new_proc pd],
                 command := Some (c0 @ '' | '' @ stage_label s)\<rparr>]\<rparr>"
    by simp_all
  have "\<not> 0 < p_ntokens p1" using a(1) "2.prems"(3) by simp
  with "2.prems"(1) it have p': "p' = p1"
    by (subst (asm) pipeline_loop.simps) simp
  from b obtain pd where "p_forks p = pd # p_forks p1"
    and "p_shell p1 = (p_shell p)\<lparr>jobs := (jobs (p_shell p))[nat (p_job p) :=
              (jobs (p_shell p) ! nat (p_job p))
                \<lparr>proc := proc (jobs (p_shell p) ! nat (p_job p)) @ [new_proc pd],
                 command := Some (c0 @ '' | '' @ stage_label s)\<rparr>]\<rparr>"
    by blast
  with a show ?case by (simp add: p')
next
  case (3 s t ss)
  let ?rest = "T_PIPE # flat (t # ss)"
  from "3.prems"(1) obtain p1 where it: "stage_iter p = Inr p1"
    by (subst (asm) pipeline_loop.simps) (auto split: sum.splits)
  have st: "s \<noteq> []" "T_PIPE \<notin> set s" using "3.prems"(6) by simp_all
  have v: "take (nat (p_ntokens p)) (drop (p_base p) (p_token p)) = s @ ?rest"
    "p_ntokens p = int (length (s @ ?rest))"
    "p_base p + length (s @ ?rest) \<le> length (p_token p)"
    using "3.prems"(2,3,4) by simp_all
  have r: "?rest = [] \<or> (\<exists>r. ?rest = T_PIPE # r)" by simp
  from stage_iter_stage [OF it v st r] "3.prems"(7)
  have a: "p_length p1 = length s" "p_ntokens p1 = p_ntokens p - (int (length s) + 1)"
    "p_base p1 = p_base p" "p_job p1 = p_job p" "length (p_token p1) = length (p_token p)"
    "0 \<le> p_job p" "p_job p < njobmax (p_shell p)"
    and tk: "\<forall>q. p_base p + length s < q \<longrightarrow> p_token p1 ! q = p_token p ! q"
    and b: "\<exists>pd. p_forks p = pd # p_forks p1 \<and>
            p_shell p1 = (p_shell p)\<lparr>jobs := (jobs (p_shell p))[nat (p_job p) :=
              (jobs (p_shell p) ! nat (p_job p))
                \<lparr>proc := proc (jobs (p_shell p) ! nat (p_job p)) @ [new_proc pd],
                 command := Some (c0 @ '' | '' @ stage_label s)\<rparr>]\<rparr>"
    by simp_all
  let ?L = "length (flat (t # ss))"
  have n1: "p_ntokens p1 = int ?L" using a(2) v(2) by simp
  have tne: "\<forall>s \<in> set (t # ss). s \<noteq> []" using "3.prems"(6) by simp
  have Lpos: "0 < ?L" by (rule flat_length_pos [OF _ tne]) simp
  let ?p2 = "p1\<lparr>p_base := p_base p1 + p_length p1 + 1\<rparr>"
  have lp2: "pipeline_loop ?p2 = Inr p'"
    using "3.prems"(1) it n1 Lpos by (subst (asm) pipeline_loop.simps) simp
  have b2: "p_base ?p2 = p_base p + length s + 1" using a by simp
  have bd2: "p_base ?p2 + ?L \<le> length (p_token ?p2)"
    using v(3) a by simp
  have view2: "take (nat (p_ntokens ?p2)) (drop (p_base ?p2) (p_token ?p2)) = flat (t # ss)"
  proof -
    have "take ?L (drop (p_base p + length s + 1) (p_token p1)) =
          take ?L (drop (p_base p + length s + 1) (p_token p))"
    proof (rule take_drop_eqI)
      show "length (p_token p1) = length (p_token p)" by (rule a(5))
      show "\<forall>j < ?L. p_token p1 ! (p_base p + length s + 1 + j) =
                      p_token p ! (p_base p + length s + 1 + j)"
        using tk by simp
    qed
    also have "\<dots> = take ?L (drop (length s + 1) (drop (p_base p) (p_token p)))"
      by (simp add: add.commute add.left_commute)
    also have "\<dots> = take ?L (drop (length s + 1)
        (take (nat (p_ntokens p)) (drop (p_base p) (p_token p))))"
      using v(2) by (simp add: drop_take)
    also have "\<dots> = flat (t # ss)" by (simp only: v(1)) simp
    finally show ?thesis using n1 b2 by simp
  qed
  from b obtain pd where fk: "p_forks p = pd # p_forks p1"
    and sh1: "p_shell p1 = (p_shell p)\<lparr>jobs := (jobs (p_shell p))[nat (p_job p) :=
              (jobs (p_shell p) ! nat (p_job p))
                \<lparr>proc := proc (jobs (p_shell p) ! nat (p_job p)) @ [new_proc pd],
                 command := Some (c0 @ '' | '' @ stage_label s)\<rparr>]\<rparr>"
    by blast
  have jl: "nat (p_job p) < length (jobs (p_shell p))"
    using a(6,7) by (simp add: njobmax_def)
  define c1 where "c1 = c0 @ '' | '' @ stage_label s"
  have cm: "command (jobs (p_shell ?p2) ! nat (p_job ?p2)) = Some c1"
    using jl a(4) by (simp add: sh1 c1_def)
  have ih: "p_job p' = p_job ?p2 \<and> 0 \<le> p_job ?p2 \<and> p_job ?p2 < njobmax (p_shell ?p2) \<and>
         length (t # ss) \<le> length (p_forks ?p2) \<and>
         p_shell p' = (p_shell ?p2)\<lparr>jobs := (jobs (p_shell ?p2))[nat (p_job ?p2) :=
              (jobs (p_shell ?p2) ! nat (p_job ?p2))
                \<lparr>proc := proc (jobs (p_shell ?p2) ! nat (p_job ?p2)) @
                          map new_proc (take (length (t # ss)) (p_forks ?p2)),
                 command := Some (c1 @ concat (map (\<lambda>st. '' | '' @ stage_label st) (t # ss)))\<rparr>]\<rparr>"
  proof (rule "3.IH" [OF lp2 view2])
    show "p_ntokens ?p2 = int ?L" using n1 by simp
    show "p_base ?p2 + ?L \<le> length (p_token ?p2)" by (rule bd2)
    show "t # ss \<noteq> []" by simp
    show "\<forall>s\<in>set (t # ss). s \<noteq> [] \<and> T_PIPE \<notin> set s" using "3.prems"(6) by simp
    show "command (jobs (p_shell ?p2) ! nat (p_job ?p2)) = Some c1" by (rule cm)
  qed
  then have sh': "p_shell p' = (p_shell p1)\<lparr>jobs := (jobs (p_shell p1))[nat (p_job p) :=
              (jobs (p_shell p1) ! nat (p_job p))
                \<lparr>proc := proc (jobs (p_shell p1) ! nat (p_job p)) @
                          map new_proc (take (length (t # ss)) (p_forks p1)),
                 command := Some (c1 @ concat (map (\<lambda>st. '' | '' @ stage_label st) (t # ss)))\<rparr>]\<rparr>"
    and len: "length (t # ss) \<le> length (p_forks p1)" and j': "p_job p' = p_job p"
    using a(4) by simp_all
  have "p_shell p' = (p_shell p)\<lparr>jobs := (jobs (p_shell p))[nat (p_job p) :=
              (jobs (p_shell p) ! nat (p_job p))
                \<lparr>proc := proc (jobs (p_shell p) ! nat (p_job p)) @
                          map new_proc (take (length (s # t # ss)) (p_forks p)),
                 command := Some (c0 @ concat (map (\<lambda>st. '' | '' @ stage_label st)
                                                 (s # t # ss)))\<rparr>]\<rparr>"
    using jl by (simp add: sh' sh1 fk c1_def)
  with j' a(6,7) len fk show ?case by simp
qed

lemma pipeline_first_stage:
  assumes pf: "pipeline_first toks ntokens bg s w forks = Inr p"
    and view: "take (nat ntokens) toks = s1 @ T_PIPE # rest"
    and s1: "T_PIPE \<notin> set s1"
    and bd: "nat ntokens \<le> length toks"
  shows "p_base p = length s1 + 1 \<and> p_ntokens p = int (length rest) \<and>
         length (p_token p) = length toks \<and>
         (\<forall>q. length s1 < q \<longrightarrow> p_token p ! q = toks ! q) \<and>
         (\<exists>pd s0. forks = pd # p_forks p \<and> addjob pd bg s = Inr (p_job p, s0) \<and>
            p_shell p = s0\<lparr>jobs := (jobs s0)[nat (p_job p) :=
              (jobs s0 ! nat (p_job p))
                \<lparr>proc := proc (jobs s0 ! nat (p_job p)) @ [new_proc pd],
                 command := Some (stage_label s1)\<rparr>]\<rparr>)"
proof -
  let ?K = "nat ntokens"
  have K: "?K = length (s1 @ T_PIPE # rest)"
    using arg_cong [OF view, of length] bd by simp
  have nth: "\<And>j. j < ?K \<Longrightarrow> toks ! j = (s1 @ T_PIPE # rest) ! j"
  proof -
    fix j assume j: "j < ?K"
    have "(s1 @ T_PIPE # rest) ! j = take ?K toks ! j" by (simp only: view)
    also have "\<dots> = toks ! j" using j by simp
    finally show "toks ! j = (s1 @ T_PIPE # rest) ! j" by simp
  qed
  have q: "length s1 < ?K" using K by simp
  have a: "toks ! (0 + 0 + length s1) = T_PIPE" using nth [OF q] by simp
  have b: "0 + 0 + length s1 < length toks" using q bd by simp
  have c: "\<forall>j < length s1. toks ! (0 + 0 + j) \<noteq> T_PIPE"
  proof (intro allI impI)
    fix j assume j: "j < length s1"
    then have "toks ! j = s1 ! j" using nth [of j] q by (simp add: nth_append)
    with s1 j show "toks ! (0 + 0 + j) \<noteq> T_PIPE" by (metis add_0 nth_mem)
  qed
  from first_pipe_found [OF q b a c] have fp: "first_pipe toks 0 0 ?K = Inr (length s1)"
    by simp
  obtain ni ou w1 where mk: "mkpipe w = (ni, ou, w1)" by (metis prod_cases3)
  from pf fp mk obtain pd toks1 w2 forks1 j s0 s2 where
    ds: "do_stage 0 (-1) ou toks 0 (int (length s1)) w1 forks = Inr (pd, toks1, w2, forks1)"
    and aj: "addjob pd bg s = Inr (j, s0)"
    and ap: "addproc_token j pd toks1 0 s0 = Inr s2"
    and p: "p_token p = toks1" "p_base p = length s1 + 1"
      "p_ntokens p = ntokens - (int (length s1) + 1)" "p_job p = j" "p_shell p = s2"
      "p_forks p = forks1"
    by (auto simp: pipeline_first_def split: sum.splits prod.splits)
  from do_stage_Inr [OF ds]
  have d: "forks = pd # forks1" "length toks1 = length toks"
    "\<forall>q. length s1 < q \<longrightarrow> toks1 ! q = toks ! q"
    and av: "\<forall>as. argv_strings (drop 0 toks1) = Inr as \<longrightarrow>
               as = words_of (take (length s1) (drop 0 toks))"
    by simp_all
  have "take (length s1) toks = take (length s1) (take ?K toks)" using q by simp
  also have "\<dots> = s1" by (simp only: view) simp
  finally have ts: "take (length s1) toks = s1" .
  from addjob_Inr [OF aj]
  have "jobs s0 ! nat j = \<lparr>pgid = pd, proc = [], tmodes = shell_tmodes s, state = RUNNING,
                              command = None\<rparr>" by blast
  then have cn: "command (jobs s0 ! nat j) = None" by simp
  from addproc_token_Inr [OF ap] obtain as where
    as: "argv_strings (drop 0 toks1) = Inr as"
    and s2': "s2 = s0\<lparr>jobs := (jobs s0)[nat j :=
            (jobs s0 ! nat j)\<lparr>proc := proc (jobs s0 ! nat j) @ [new_proc pd],
              command := Some ((case command (jobs s0 ! nat j) of None \<Rightarrow> []
                                | Some c0 \<Rightarrow> c0 @ '' | '') @ unwords as)\<rparr>]\<rparr>"
    by blast
  from av as ts have "unwords as = stage_label s1" by (simp add: stage_label_def)
  with s2' cn have
    s2: "s2 = s0\<lparr>jobs := (jobs s0)[nat j :=
            (jobs s0 ! nat j)\<lparr>proc := proc (jobs s0 ! nat j) @ [new_proc pd],
              command := Some (stage_label s1)\<rparr>]\<rparr>"
    by simp
  have n: "p_ntokens p = int (length rest)" using p(3) K by simp
  show ?thesis
    using p n d aj s2 by auto
qed

lemma exitcode_last:
  assumes "proc job \<noteq> []"
  shows "exitcode job = Inr (pexitcode (proc job ! (length (proc job) - 1)))"
  using assms
  by (cases "proc job") (simp_all add: exitcode_def nproc_def nat_diff_distrib)

lemma jobstate_finished:
  assumes "0 \<le> j" and "j < njobmax s" and "state (jobs s ! nat j) = FINISHED"
    and "proc (jobs s ! nat j) \<noteq> []"
  shows "\<exists>s'. jobstate j status s =
           Inr (FINISHED, pexitcode (proc (jobs s ! nat j) ! (length (proc (jobs s ! nat j)) - 1)), s') \<and>
           pgid (jobs s' ! nat j) = 0"
proof -
  have "nat j < length (jobs s)" using assms(1,2) by (simp add: njobmax_def)
  then show ?thesis
    using assms exitcode_last [OF assms(4)]
    by (simp add: jobstate_def Let_def deljob_def)
qed

lemma map_pid_new_proc: "map pid (map new_proc xs) = xs"
  by (induction xs) (simp_all add: new_proc_def)

text \<open>
  The job \<^verbatim>\<open>do_pipeline\<close> has built when its loop ends: one entry for each stage and
  the labels of the stages as its command text.
\<close>

lemma pipeline_spawn_job:
  assumes "pipeline_spawn toks ntokens bg s w forks = Inr p"
    and "nat ntokens < length toks"
    and "\<forall>st \<in> set (stages (take (nat ntokens) toks)). st \<noteq> []"
  shows "(let ss = stages (take (nat ntokens) toks);
              N = length ss;
              j = nat (p_job p);
              job = jobs (p_shell p) ! j
          in p_job p = (if bg then fst (allocjob s) else FG) \<and>
             0 \<le> p_job p \<and> p_job p < njobmax (p_shell p) \<and>
             0 < N \<and> N \<le> length forks \<and>
             proc job = map new_proc (take N forks) \<and>
             command job = Some (command_text ss) \<and>
             pgid job = hd forks \<and> state job = RUNNING \<and>
             (\<forall>i. i < length (jobs s) \<and> i \<noteq> j \<longrightarrow> jobs (p_shell p) ! i = jobs s ! i))"
proof -
  define K where "K = nat ntokens"
  define cmd where "cmd = take K toks"
  define ss where "ss = stages cmd"
  have fl: "flat ss = cmd" by (simp add: ss_def flat_stages)
  have np: "\<forall>st \<in> set ss. T_PIPE \<notin> set st" unfolding ss_def by (rule stages_no_pipe)
  have ne: "\<forall>st \<in> set ss. st \<noteq> []" using assms(3) unfolding ss_def cmd_def K_def .
  have Kl: "K < length toks" using assms(2) by (simp add: K_def)
  have lc: "length cmd = K" using Kl by (simp add: cmd_def)
  from assms(1) obtain p0 where pf: "pipeline_first toks ntokens bg s w forks = Inr p0"
    and lp: "pipeline_loop p0 = Inr p"
    by (auto simp: pipeline_spawn_def split: sum.splits)
  have ssne: "ss \<noteq> []" unfolding ss_def by (rule stages_nonempty)
  then obtain s1 rest where sr: "ss = s1 # rest" by (cases ss) auto
  have two: "\<exists>s1 t ss'. ss = s1 # t # ss'"
  proof (cases rest)
    case (Cons t ss')
    with sr show ?thesis by blast
  next
    case Nil
    with sr have s1: "ss = [s1]" by simp
    then have c1: "cmd = s1" using fl by simp
    have "\<forall>j < K. 0 + 0 + j < length toks \<and> toks ! (0 + 0 + j) \<noteq> T_PIPE"
    proof (intro allI impI)
      fix j assume j: "j < K"
      then have "toks ! j = cmd ! j" by (simp add: cmd_def)
      moreover have "cmd ! j \<in> set s1" using j lc c1 by simp
      ultimately show "0 + 0 + j < length toks \<and> toks ! (0 + 0 + j) \<noteq> T_PIPE"
        using np s1 j Kl by auto
    qed
    from first_pipe_none [OF this] have fp: "first_pipe toks 0 0 (nat ntokens) = Inr 0"
      by (simp add: K_def)
    obtain ni ou w1 where mk: "mkpipe w = (ni, ou, w1)" by (metis prod_cases3)
    from pf fp mk obtain pd toks1 w2 forks1 where
      "do_stage 0 (-1) ou toks 0 (int 0) w1 forks = Inr (pd, toks1, w2, forks1)"
      by (auto simp: pipeline_first_def split: sum.splits prod.splits)
    from do_stage_Inr [OF this] show ?thesis by simp
  qed
  then obtain s1 t ss' where ss: "ss = s1 # t # ss'" by blast
  have view: "take (nat ntokens) toks = s1 @ T_PIPE # flat (t # ss')"
    using fl ss by (simp add: cmd_def K_def)
  have s1p: "T_PIPE \<notin> set s1" using np ss by simp
  have bd: "nat ntokens \<le> length toks" using assms(2) by simp
  from pipeline_first_stage [OF pf view s1p bd] obtain pd s0 where
    b0: "p_base p0 = length s1 + 1" and n0: "p_ntokens p0 = int (length (flat (t # ss')))"
    and l0: "length (p_token p0) = length toks"
    and t0: "\<forall>q. length s1 < q \<longrightarrow> p_token p0 ! q = toks ! q"
    and fk: "forks = pd # p_forks p0" and aj: "addjob pd bg s = Inr (p_job p0, s0)"
    and sh0: "p_shell p0 = s0\<lparr>jobs := (jobs s0)[nat (p_job p0) :=
              (jobs s0 ! nat (p_job p0))
                \<lparr>proc := proc (jobs s0 ! nat (p_job p0)) @ [new_proc pd],
                 command := Some (stage_label s1)\<rparr>]\<rparr>"
    by blast
  let ?L = "length (flat (t # ss'))"
  have KL: "K = length s1 + 1 + ?L"
    using arg_cong [OF view, of length] bd by (simp add: K_def)
  have view0: "take (nat (p_ntokens p0)) (drop (p_base p0) (p_token p0)) = flat (t # ss')"
  proof -
    have "take ?L (drop (length s1 + 1) (p_token p0)) = take ?L (drop (length s1 + 1) toks)"
    proof (rule take_drop_eqI)
      show "length (p_token p0) = length toks" by (rule l0)
      show "\<forall>j < ?L. p_token p0 ! (length s1 + 1 + j) = toks ! (length s1 + 1 + j)"
        using t0 by simp
    qed
    also have "\<dots> = take ?L (drop (length s1 + 1) (take K toks))"
      using KL by (simp add: drop_take)
    also have "\<dots> = flat (t # ss')"
      using view by (simp add: K_def)
    finally show ?thesis using n0 b0 by simp
  qed
  have bd0: "p_base p0 + ?L \<le> length (p_token p0)"
    using b0 l0 KL Kl by simp
  have st0: "\<forall>s \<in> set (t # ss'). s \<noteq> [] \<and> T_PIPE \<notin> set s"
    using np ne ss by simp
  define j where "j = nat (p_job p0)"
  define N where "N = length ss"
  have N: "N = Suc (length (t # ss'))" by (simp add: N_def ss)
  from addjob_Inr [OF aj]
  have ja: "p_job p0 = (if bg then fst (allocjob s) else FG)"
    and jl0: "p_job p0 < njobmax s0" and jn0: "0 \<le> p_job p0"
    and J0: "jobs s0 ! j = \<lparr>pgid = pd, proc = [], tmodes = shell_tmodes s, state = RUNNING,
                              command = None\<rparr>"
    and oth: "\<forall>i. i < length (jobs s) \<and> i \<noteq> j \<longrightarrow> jobs s0 ! i = jobs s ! i"
    unfolding j_def by blast+
  have jl: "j < length (jobs s0)" using jl0 jn0 by (simp add: njobmax_def j_def)
  have cm0: "command (jobs (p_shell p0) ! nat (p_job p0)) = Some (stage_label s1)"
    using jl by (simp add: sh0 j_def [symmetric])
  define c' where "c' = stage_label s1 @ concat (map (\<lambda>st. '' | '' @ stage_label st) (t # ss'))"
  from pipeline_loop_stages [OF lp view0 n0 bd0 _ st0 cm0]
  have jp: "p_job p = p_job p0" and j0: "0 \<le> p_job p0" "p_job p0 < njobmax (p_shell p0)"
    and lf: "length (t # ss') \<le> length (p_forks p0)"
    and sh: "p_shell p = (p_shell p0)\<lparr>jobs := (jobs (p_shell p0))[nat (p_job p0) :=
              (jobs (p_shell p0) ! nat (p_job p0))
                \<lparr>proc := proc (jobs (p_shell p0) ! nat (p_job p0)) @
                          map new_proc (take (length (t # ss')) (p_forks p0)),
                 command := Some c'\<rparr>]\<rparr>"
    unfolding c'_def by simp_all
  have jl: "j < length (jobs s0)" using jl0 j0 by (simp add: njobmax_def j_def)
  have jobs_p: "jobs (p_shell p) = (jobs s0)[j :=
      \<lparr>pgid = pd, proc = map new_proc (take N forks), tmodes = shell_tmodes s,
       state = RUNNING, command = Some c'\<rparr>]"
    using jl by (simp add: sh sh0 j_def [symmetric] J0 N fk)
  have job: "jobs (p_shell p) ! j =
      \<lparr>pgid = pd, proc = map new_proc (take N forks), tmodes = shell_tmodes s,
       state = RUNNING, command = Some c'\<rparr>"
    using jl by (simp add: jobs_p)
  have Nf: "N \<le> length forks" using lf by (simp add: N fk)
  have Npos: "0 < N" by (simp add: N)
  have lproc: "length (proc (jobs (p_shell p) ! j)) = N" using Nf by (simp add: job)
  have c1: "p_job p = (if bg then fst (allocjob s) else FG)" using ja jp by simp
  have c2: "0 \<le> p_job p" "p_job p < njobmax (p_shell p)"
    using j0 jl jp by (simp_all add: njobmax_def jobs_p j_def)
  have c3: "pgid (jobs (p_shell p) ! j) = hd forks" "state (jobs (p_shell p) ! j) = RUNNING"
    "proc (jobs (p_shell p) ! j) = map new_proc (take N forks)"
    by (simp_all add: job fk)
  have c4: "\<forall>i. i < length (jobs s) \<and> i \<noteq> j \<longrightarrow> jobs (p_shell p) ! i = jobs s ! i"
    using oth by (simp add: jobs_p)
  have c5: "command (jobs (p_shell p) ! j) = Some (command_text ss)"
    by (simp add: job c'_def command_text_def ss)
  have jn: "nat (p_job p) = j" by (simp add: jp j_def)
  have Ns: "length (stages (take (nat ntokens) toks)) = N"
    by (simp add: N_def ss_def cmd_def K_def)
  have ssd: "stages (take (nat ntokens) toks) = ss" by (simp add: ss_def cmd_def K_def)
  show ?thesis
    unfolding Let_def Ns jn
    using c1 c2 Npos Nf c3 c4 c5 by (simp add: ssd)
qed

text \<open>
  After the handler has run, the entries of a job hold the same processes; once the job
  is finished \<open>jobstate\<close> hands out the status of the last one and frees the slot.
\<close>

lemma jobstate_after_handler:
  assumes "0 \<le> j" and "j < njobmax s" and "proc (jobs s ! nat j) \<noteq> []"
  shows "map pid (proc (jobs (sigchld_handler evs s) ! nat j)) = map pid (proc (jobs s ! nat j)) \<and>
         (state (jobs (sigchld_handler evs s) ! nat j) = FINISHED \<longrightarrow>
            (\<exists>s'. jobstate j status (sigchld_handler evs s) =
               Inr (FINISHED,
                    pexitcode (proc (jobs (sigchld_handler evs s) ! nat j) !
                                 (length (proc (jobs s ! nat j)) - 1)),
                    s') \<and>
               pgid (jobs s' ! nat j) = 0))"
proof -
  let ?s' = "sigchld_handler evs s"
  have js: "jobs ?s' = foldl (\<lambda>js ev. reap ev js) (jobs s) evs"
    by (simp add: sigchld_handler_def)
  from reaps_pids [of "jobs s" evs]
  have len: "length (jobs ?s') = length (jobs s)"
    and pids: "map pid (proc (jobs ?s' ! nat j)) = map pid (proc (jobs s ! nat j))"
    by (simp_all add: js)
  from pids have l: "length (proc (jobs ?s' ! nat j)) = length (proc (jobs s ! nat j))"
    by (metis length_map)
  with assms(3) have ne: "proc (jobs ?s' ! nat j) \<noteq> []" by auto
  have nj: "j < njobmax ?s'" using assms(2) len by (simp add: njobmax_def)
  have "\<exists>s'. jobstate j status ?s' =
              Inr (FINISHED,
                   pexitcode (proc (jobs ?s' ! nat j) ! (length (proc (jobs s ! nat j)) - 1)), s') \<and>
              pgid (jobs s' ! nat j) = 0"
    if "state (jobs ?s' ! nat j) = FINISHED"
    using jobstate_finished [OF assms(1) nj that ne, of status] by (simp add: l)
  with pids show ?thesis by blast
qed

lemma run_wakes_pids:
  "length (jobs (run_wakes ws s)) = length (jobs s) \<and>
   (\<forall>i. map pid (proc (jobs (run_wakes ws s) ! i)) = map pid (proc (jobs s ! i)))"
proof (induction ws arbitrary: s)
  case Nil
  then show ?case by simp
next
  case (Cons w ws)
  let ?s0 = "case fst w of None \<Rightarrow> s | Some tm \<Rightarrow> s\<lparr>tty_modes := tm\<rparr>"
  have j0: "jobs ?s0 = jobs s" by (cases "fst w") simp_all
  have "jobs (sigsuspend w s) = foldl (\<lambda>js ev. reap ev js) (jobs s) (snd w)"
    by (simp add: sigsuspend_def sigchld_handler_def j0)
  with reaps_pids [of "jobs s" "snd w"]
  have "length (jobs (sigsuspend w s)) = length (jobs s) \<and>
        (\<forall>i. map pid (proc (jobs (sigsuspend w s) ! i)) = map pid (proc (jobs s ! i)))"
    by simp
  with Cons [of "sigsuspend w s"] show ?case by simp
qed

lemma jobstate_unfinished:
  assumes "jobstate j status s = Inr (st, c, s')" and "st \<noteq> FINISHED"
  shows "c = status \<and> s' = s"
  using assms
  by (auto simp: jobstate_def Let_def split: if_splits sum.splits)

lemma jobstate_state:
  assumes "jobstate j status s = Inr (st, c, s')"
  shows "st = state (jobs s ! nat j) \<and> 0 \<le> j \<and> j < njobmax s"
  using assms
  by (auto simp: jobstate_def Let_def split: if_splits sum.splits)

text \<open>
  The loop of \<open>monitorjob\<close> ends in the state the job has after the wakes it slept
  through, with what \<open>jobstate\<close> hands out then.
\<close>

lemma monitor_loop_run:
  assumes "monitor_loop ws ec s = Some (Inr (st, ec', ws', s'))"
  shows "length ws' \<le> length ws \<and> ws' = drop (length ws - length ws') ws \<and> st \<noteq> RUNNING \<and>
         jobstate 0 ec (run_wakes (take (length ws - length ws') ws) s) = Inr (st, ec', s')"
  using assms
proof (induction ws arbitrary: s)
  case Nil
  then show ?case by (auto split: sum.splits if_splits)
next
  case (Cons w ws)
  from Cons.prems obtain st0 ec0 s0 where js: "jobstate 0 ec s = Inr (st0, ec0, s0)"
    by (auto split: sum.splits)
  show ?case
  proof (cases "st0 = RUNNING")
    case False
    with Cons.prems js show ?thesis by simp
  next
    case True
    then have "st0 \<noteq> FINISHED" by (simp add: state_defs)
    from jobstate_unfinished [OF js this] have e: "ec0 = ec" "s0 = s" by simp_all
    from Cons.prems js True e
    have "monitor_loop ws ec (sigsuspend w s) = Some (Inr (st, ec', ws', s'))" by simp
    from Cons.IH [OF this]
    have l: "length ws' \<le> length ws" and d: "ws' = drop (length ws - length ws') ws"
      and r: "st \<noteq> RUNNING"
      and j: "jobstate 0 ec (run_wakes (take (length ws - length ws') ws) (sigsuspend w s)) =
                Inr (st, ec', s')"
      by simp_all
    from l have n: "length (w # ws) - length ws' = Suc (length ws - length ws')" by simp
    from l d r j show ?thesis unfolding n by simp
  qed
qed

lemma monitorjob_run:
  assumes "monitorjob ws s = Some (Inr (ec, ws', s'))"
  shows "length ws' \<le> length ws \<and> ws' = drop (length ws - length ws') ws \<and>
         (let sb = run_wakes (take (length ws - length ws') ws) (Tcsetpgrp (pgid (jobs s ! 0)) s)
          in state (jobs sb ! 0) \<noteq> RUNNING \<and>
             (\<exists>s1. jobstate 0 0 sb = Inr (state (jobs sb ! 0), ec, s1) \<and>
                   (state (jobs sb ! 0) \<noteq> STOPPED \<longrightarrow> jobs s' = jobs s1)))"
proof -
  from assms obtain st s1 s2 where
    ml: "monitor_loop ws 0 (Tcsetpgrp (pgid (jobs s ! 0)) s) = Some (Inr (st, ec, ws', s1))"
    and ms: "(if st = STOPPED then monitor_stopped s1 else Inr s1) = Inr s2"
    and s': "s' = (if st \<noteq> RUNNING
                   then Tcsetpgrp (shell_pgrp s2) (Tcsetattr (shell_tmodes s2) s2) else s2)"
    by (auto simp: monitorjob_def split: if_splits option.splits sum.splits)
  let ?sb = "run_wakes (take (length ws - length ws') ws) (Tcsetpgrp (pgid (jobs s ! 0)) s)"
  from monitor_loop_run [OF ml]
  have l: "length ws' \<le> length ws" "ws' = drop (length ws - length ws') ws"
    and r: "st \<noteq> RUNNING" and js: "jobstate 0 0 ?sb = Inr (st, ec, s1)"
    by simp_all
  from jobstate_state [OF js] have st: "st = state (jobs ?sb ! 0)" by simp
  have "jobs s' = jobs s1" if "st \<noteq> STOPPED"
    using that ms by (auto simp: s' Tcsetpgrp_def Tcsetattr_def)
  with l r js st show ?thesis unfolding Let_def by blast
qed

lemma pipeline_spawn_abc:
  "pipeline_spawn abc_tokens 5 False (initjobs 50 1) term_world [100, 101, 102, 103] =
     Inr abc_pipeline"
  by (simp add: shell_defs jobs_defs pipeline_loop.simps abc_tokens_def abc_pipeline_def
      abc_shell_def new_proc_def term_world_def tty_def eval_nat_numeral)

lemma do_pipeline_abc:
  "do_pipeline abc_tokens 5 False abc_wakes (initjobs 50 1) term_world [100, 101, 102, 103] =
     Some (Inr (1792, [(None, [])],
       abc_pipeline\<lparr>p_shell := abc_shell\<lparr>jobs :=
         [\<lparr>pgid = 0, proc = [], tmodes = 1, state = FINISHED, command = None\<rparr>]\<rparr>\<rparr>))"
  unfolding do_pipeline_def pipeline_spawn_abc
  by (simp add: abc_wakes_def abc_pipeline_def abc_shell_def new_proc_def jobs_defs)

text \<open>
  Claim C2. Take a command line of \<open>ntokens\<close> tokens in an array with room for the
  terminator, cut it at the pipe separators into \<open>N\<close> stages, none of them empty, and
  let \<open>do_pipeline\<close> return. Then its loop has ended with a complete job \<open>p\<close>. The job
  sits in one slot, slot 0 in the foreground and the slot \<open>allocjob\<close> picks in the
  background, and no other slot of the table has changed. Its process entries are exactly
  the first \<open>N\<close> forked pids in the order of the forks, each \<open>RUNNING\<close> with exit code
  \<open>-1\<close>; its command text is made of the labels of the \<open>N\<close> stages in their order, so
  entry and label \<open>k\<close> were added for stage \<open>k\<close>; its group is the first pid. Whatever
  the handler reaps afterwards, the entries keep their pids and their order, and once the
  job is \<open>FINISHED\<close>, \<open>jobstate\<close> reports the status of the \<open>N\<close>th entry and frees
  the slot.

  In the background \<open>do_pipeline\<close> returns 0 at once, printing the slot and the command
  text. In the foreground it returns what \<open>monitorjob\<close> returns: the shell has slept
  through the wakes it used up, the job in slot 0 still holds the \<open>N\<close> pids and is no
  longer \<open>RUNNING\<close>; when it is \<open>FINISHED\<close> the exit code returned is the status the
  handler has stored in the \<open>N\<close>th entry, and slot 0 is free again; otherwise the job
  has no exit status yet and 0 is returned.
\<close>

theorem do_pipeline_registers_stages:
  assumes "do_pipeline toks ntokens bg ws s w forks = Some (Inr (ec, ws', p'))"
    and "nat ntokens < length toks"
    and "\<forall>st \<in> set (stages (take (nat ntokens) toks)). st \<noteq> []"
  shows "\<exists>p. pipeline_spawn toks ntokens bg s w forks = Inr p \<and>
          (let ss = stages (take (nat ntokens) toks);
               N = length ss;
               j = nat (p_job p);
               job = jobs (p_shell p) ! j
           in p_job p = (if bg then fst (allocjob s) else FG) \<and>
              0 \<le> p_job p \<and> p_job p < njobmax (p_shell p) \<and>
              N \<le> length forks \<and>
              proc job = map new_proc (take N forks) \<and>
              command job = Some (command_text ss) \<and>
              pgid job = hd forks \<and> state job = RUNNING \<and>
              (\<forall>i. i < length (jobs s) \<and> i \<noteq> j \<longrightarrow> jobs (p_shell p) ! i = jobs s ! i) \<and>
              (\<forall>evs status.
                 map pid (proc (jobs (sigchld_handler evs (p_shell p)) ! j)) = take N forks \<and>
                 (state (jobs (sigchld_handler evs (p_shell p)) ! j) = FINISHED \<longrightarrow>
                    (\<exists>s'. jobstate (p_job p) status (sigchld_handler evs (p_shell p)) =
                       Inr (FINISHED,
                            pexitcode (proc (jobs (sigchld_handler evs (p_shell p)) ! j) ! (N - 1)),
                            s') \<and>
                       pgid (jobs s' ! j) = 0))) \<and>
              (if bg
               then ec = 0 \<and> ws' = ws \<and>
                    p' = p\<lparr>p_shell := msg ''[%d] running '%s'\<newline>''
                                         [ArgInt (p_job p), ArgStr (Some (command_text ss))]
                                         (p_shell p)\<rparr>
               else length ws' \<le> length ws \<and> ws' = drop (length ws - length ws') ws \<and>
                    (let sb = run_wakes (take (length ws - length ws') ws)
                                (Tcsetpgrp (hd forks) (p_shell p));
                         fg = jobs sb ! 0
                     in map pid (proc fg) = take N forks \<and>
                        state fg \<noteq> RUNNING \<and>
                        (if state fg = FINISHED
                         then ec = pexitcode (proc fg ! (N - 1)) \<and>
                              pgid (jobs (p_shell p') ! 0) = 0
                         else ec = 0))))"
proof -
  from assms(1) obtain p where sp: "pipeline_spawn toks ntokens bg s w forks = Inr p"
    by (auto simp: do_pipeline_def split: sum.splits)
  define ss where "ss = stages (take (nat ntokens) toks)"
  define N where "N = length ss"
  define j where "j = nat (p_job p)"
  from pipeline_spawn_job [OF sp assms(2,3)]
  have c1: "p_job p = (if bg then fst (allocjob s) else FG)"
    and c2: "0 \<le> p_job p" "p_job p < njobmax (p_shell p)"
    and Npos: "0 < N" and Nf: "N \<le> length forks"
    and pr: "proc (jobs (p_shell p) ! j) = map new_proc (take N forks)"
    and cm: "command (jobs (p_shell p) ! j) = Some (command_text ss)"
    and pg: "pgid (jobs (p_shell p) ! j) = hd forks"
    and st: "state (jobs (p_shell p) ! j) = RUNNING"
    and oth: "\<forall>i. i < length (jobs s) \<and> i \<noteq> j \<longrightarrow> jobs (p_shell p) ! i = jobs s ! i"
    unfolding Let_def ss_def [symmetric] N_def [symmetric] j_def [symmetric] by simp_all
  have lproc: "length (proc (jobs (p_shell p) ! j)) = N" using Nf by (simp add: pr)
  have pne: "proc (jobs (p_shell p) ! nat (p_job p)) \<noteq> []"
    using lproc Npos by (auto simp: j_def)
  have pids: "map pid (proc (jobs (p_shell p) ! j)) = take N forks"
    by (simp only: pr map_pid_new_proc)
  have c6: "\<forall>evs status.
      map pid (proc (jobs (sigchld_handler evs (p_shell p)) ! j)) = take N forks \<and>
      (state (jobs (sigchld_handler evs (p_shell p)) ! j) = FINISHED \<longrightarrow>
         (\<exists>s'. jobstate (p_job p) status (sigchld_handler evs (p_shell p)) =
            Inr (FINISHED,
                 pexitcode (proc (jobs (sigchld_handler evs (p_shell p)) ! j) ! (N - 1)),
                 s') \<and>
            pgid (jobs s' ! j) = 0))"
  proof (intro allI)
    fix evs status
    from jobstate_after_handler [OF c2 pne, of evs status]
    show "map pid (proc (jobs (sigchld_handler evs (p_shell p)) ! j)) = take N forks \<and>
      (state (jobs (sigchld_handler evs (p_shell p)) ! j) = FINISHED \<longrightarrow>
         (\<exists>s'. jobstate (p_job p) status (sigchld_handler evs (p_shell p)) =
            Inr (FINISHED,
                 pexitcode (proc (jobs (sigchld_handler evs (p_shell p)) ! j) ! (N - 1)),
                 s') \<and>
            pgid (jobs s' ! j) = 0))"
      unfolding j_def [symmetric] lproc pids .
  qed
  have c7: "ec = 0 \<and> ws' = ws \<and>
            p' = p\<lparr>p_shell := msg ''[%d] running '%s'\<newline>''
                                 [ArgInt (p_job p), ArgStr (Some (command_text ss))]
                                 (p_shell p)\<rparr>" if bg
  proof -
    have "jobcmd (p_job p) (p_shell p) = Inr (Some (command_text ss))"
      using c2 cm by (simp add: jobcmd_def j_def)
    with assms(1) sp that show ?thesis by (simp add: do_pipeline_def)
  qed
  have c8: "length ws' \<le> length ws \<and> ws' = drop (length ws - length ws') ws \<and>
            (let sb = run_wakes (take (length ws - length ws') ws)
                        (Tcsetpgrp (hd forks) (p_shell p));
                 fg = jobs sb ! 0
             in map pid (proc fg) = take N forks \<and>
                state fg \<noteq> RUNNING \<and>
                (if state fg = FINISHED
                 then ec = pexitcode (proc fg ! (N - 1)) \<and> pgid (jobs (p_shell p') ! 0) = 0
                 else ec = 0))" if nbg: "\<not> bg"
  proof -
    from assms(1) sp nbg obtain s' where
      mj: "monitorjob ws (p_shell p) = Some (Inr (ec, ws', s'))" and p': "p' = p\<lparr>p_shell := s'\<rparr>"
      by (auto simp: do_pipeline_def split: option.splits sum.splits)
    have j0: "j = 0" using c1 nbg by (simp add: j_def FG_def)
    let ?sb = "run_wakes (take (length ws - length ws') ws) (Tcsetpgrp (hd forks) (p_shell p))"
    from monitorjob_run [OF mj] pg j0 obtain s1 where
      l: "length ws' \<le> length ws" "ws' = drop (length ws - length ws') ws"
      and r: "state (jobs ?sb ! 0) \<noteq> RUNNING"
      and js: "jobstate 0 0 ?sb = Inr (state (jobs ?sb ! 0), ec, s1)"
      and fr: "state (jobs ?sb ! 0) \<noteq> STOPPED \<longrightarrow> jobs s' = jobs s1"
      unfolding Let_def by auto
    from run_wakes_pids [of "take (length ws - length ws') ws" "Tcsetpgrp (hd forks) (p_shell p)"]
    have len: "length (jobs ?sb) = length (jobs (p_shell p))"
      and pd: "map pid (proc (jobs ?sb ! 0)) = take N forks"
      using pids j0 by (simp_all add: Tcsetpgrp_def)
    from pd have lp: "length (proc (jobs ?sb ! 0)) = N"
      using Nf by (metis length_map length_take min.absorb2)
    then have ne: "proc (jobs ?sb ! nat 0) \<noteq> []" using Npos by auto
    have "0 < length (jobs (p_shell p))" using c2 unfolding njobmax_def by linarith
    then have nj: "(0::int) < njobmax ?sb" using len by (simp add: njobmax_def)
    have fin: "ec = pexitcode (proc (jobs ?sb ! 0) ! (N - 1)) \<and> pgid (jobs (p_shell p') ! 0) = 0"
      if f: "state (jobs ?sb ! 0) = FINISHED"
    proof -
      from f have f': "state (jobs ?sb ! nat 0) = FINISHED" by simp
      from jobstate_finished [OF _ nj f' ne, of 0] js f lp
      have "ec = pexitcode (proc (jobs ?sb ! 0) ! (N - 1))" "pgid (jobs s1 ! 0) = 0"
        by auto
      moreover have "jobs s' = jobs s1" using fr f by (simp add: state_defs)
      ultimately show ?thesis by (simp add: p')
    qed
    have unf: "ec = 0" if "state (jobs ?sb ! 0) \<noteq> FINISHED"
      using jobstate_unfinished [OF js that] by simp
    from l pd r fin unf show ?thesis unfolding Let_def by simp
  qed
  have "(let ss = stages (take (nat ntokens) toks);
               N = length ss;
               j = nat (p_job p);
               job = jobs (p_shell p) ! j
           in p_job p = (if bg then fst (allocjob s) else FG) \<and>
              0 \<le> p_job p \<and> p_job p < njobmax (p_shell p) \<and>
              N \<le> length forks \<and>
              proc job = map new_proc (take N forks) \<and>
              command job = Some (command_text ss) \<and>
              pgid job = hd forks \<and> state job = RUNNING \<and>
              (\<forall>i. i < length (jobs s) \<and> i \<noteq> j \<longrightarrow> jobs (p_shell p) ! i = jobs s ! i) \<and>
              (\<forall>evs status.
                 map pid (proc (jobs (sigchld_handler evs (p_shell p)) ! j)) = take N forks \<and>
                 (state (jobs (sigchld_handler evs (p_shell p)) ! j) = FINISHED \<longrightarrow>
                    (\<exists>s'. jobstate (p_job p) status (sigchld_handler evs (p_shell p)) =
                       Inr (FINISHED,
                            pexitcode (proc (jobs (sigchld_handler evs (p_shell p)) ! j) ! (N - 1)),
                            s') \<and>
                       pgid (jobs s' ! j) = 0))) \<and>
              (if bg
               then ec = 0 \<and> ws' = ws \<and>
                    p' = p\<lparr>p_shell := msg ''[%d] running '%s'\<newline>''
                                         [ArgInt (p_job p), ArgStr (Some (command_text ss))]
                                         (p_shell p)\<rparr>
               else length ws' \<le> length ws \<and> ws' = drop (length ws - length ws') ws \<and>
                    (let sb = run_wakes (take (length ws - length ws') ws)
                                (Tcsetpgrp (hd forks) (p_shell p));
                         fg = jobs sb ! 0
                     in map pid (proc fg) = take N forks \<and>
                        state fg \<noteq> RUNNING \<and>
                        (if state fg = FINISHED
                         then ec = pexitcode (proc fg ! (N - 1)) \<and>
                              pgid (jobs (p_shell p') ! 0) = 0
                         else ec = 0))))"
    unfolding Let_def ss_def [symmetric] N_def [symmetric] j_def [symmetric]
    using c1 c2 Nf pr cm pg st oth c6 c7 c8 unfolding Let_def by (cases bg) simp_all
  with sp show ?thesis by blast
qed

theorem do_pipeline_registers_stages_witness:
  "do_pipeline abc_tokens 5 False abc_wakes (initjobs 50 1) term_world [100, 101, 102, 103] =
     Some (Inr (1792, [(None, [])],
       abc_pipeline\<lparr>p_shell := abc_shell\<lparr>jobs :=
         [\<lparr>pgid = 0, proc = [], tmodes = 1, state = FINISHED, command = None\<rparr>]\<rparr>\<rparr>)) \<and>
   pipeline_spawn abc_tokens 5 False (initjobs 50 1) term_world [100, 101, 102, 103] =
     Inr abc_pipeline \<and>
   nat 5 < length abc_tokens \<and>
   stages (take (nat 5) abc_tokens) = [Word ''a''] # [Word ''b''] # [Word ''c''] # [] \<and>
   proc (jobs (p_shell abc_pipeline) ! 0) = map new_proc [100, 101, 102] \<and>
   command (jobs (p_shell abc_pipeline) ! 0) = Some ''a | b | c'' \<and>
   command_text (stages (take (nat 5) abc_tokens)) = ''a | b | c'' \<and>
   proc (jobs (run_wakes (take 2 abc_wakes) (Tcsetpgrp 100 (p_shell abc_pipeline))) ! 0) =
     [\<lparr>pid = 100, pstate = FINISHED, pexitcode = 256\<rparr>,
      \<lparr>pid = 101, pstate = FINISHED, pexitcode = 0\<rparr>,
      \<lparr>pid = 102, pstate = FINISHED, pexitcode = 1792\<rparr>] \<and>
   state (jobs (run_wakes (take 2 abc_wakes) (Tcsetpgrp 100 (p_shell abc_pipeline))) ! 0) =
     FINISHED"
proof -
  have h2: "nat 5 < length abc_tokens" by (simp add: abc_tokens_def)
  have st: "stages (take (nat 5) abc_tokens) = [Word ''a''] # [Word ''b''] # [Word ''c''] # []"
    by (simp add: abc_tokens_def eval_nat_numeral)
  have h3: "\<forall>st \<in> set (stages (take (nat 5) abc_tokens)). st \<noteq> []"
    by (simp only: st) simp
  have ct: "command_text (stages (take (nat 5) abc_tokens)) = ''a | b | c''"
    by (simp only: st) (simp add: command_text_def stage_label_def)
  have rw: "run_wakes (take 2 abc_wakes) (Tcsetpgrp 100 (p_shell abc_pipeline)) =
      abc_shell\<lparr>tty_pgrp := 100, jobs :=
        [\<lparr>pgid = 100,
          proc = [\<lparr>pid = 100, pstate = FINISHED, pexitcode = 256\<rparr>,
                  \<lparr>pid = 101, pstate = FINISHED, pexitcode = 0\<rparr>,
                  \<lparr>pid = 102, pstate = FINISHED, pexitcode = 1792\<rparr>],
          tmodes = 1, state = FINISHED, command = Some ''a | b | c''\<rparr>]\<rparr>"
    by (simp add: abc_wakes_def abc_pipeline_def abc_shell_def new_proc_def jobs_defs
        eval_nat_numeral)
  show ?thesis
    using do_pipeline_abc pipeline_spawn_abc h2 st ct rw
      do_pipeline_registers_stages [OF do_pipeline_abc h2 h3]
    by (simp add: abc_pipeline_def abc_shell_def new_proc_def)
qed

text \<open>
  A background pipeline whose second stage redirects its output: the labels are the
  strings before the redirection.
\<close>

lemma do_pipeline_background:
  "map_option (map_sum id (\<lambda>(ec, ws, p).
       (ec, p_job p, p_token p, jobs (p_shell p) ! 1, out (p_shell p))))
     (do_pipeline grep_tokens 7 True [] (initjobs 50 1) term_world [100, 101]) =
   Some (Inr (0, 1,
     [Word ''ls'', Word ''-l'', T_NULL, Word ''grep'', Word ''x'', T_NULL, T_NULL, T_NULL],
     \<lparr>pgid = 100, proc = [new_proc 100, new_proc 101], tmodes = 1, state = RUNNING,
      command = Some ''ls -l | grep x''\<rparr>,
     [(''[%d] running '%s'\<newline>'', [ArgInt 1, ArgStr (Some ''ls -l | grep x'')])]))"
  by (simp add: do_pipeline_def pipeline_spawn_def shell_defs jobs_defs open_defs
      pipeline_loop.simps grep_tokens_def new_proc_def term_world_def tty_def eval_nat_numeral)

end
